theory Spec2Isabelle
  imports Complex_Main "HOL-Library.Multiset" "HOL-Library.Sublist"
begin

section \<open>Python values shared by the models\<close>

text \<open>
  Exceptions of the Python runtime and of the libraries are values: a function that can
  raise returns \<open>error + 'a\<close>, with \<open>Inl\<close> for the exception that leaves it.
\<close>

datatype error = IndexError | ValueError | TypeError | ZeroDivisionError | UnboundLocalError

section \<open>Arrays: \<open>src/utils.py\<close>\<close>

text \<open>
  A numpy array in C order is its shape and its flat row-major buffer. An array is
  well formed when the buffer holds as many elements as the shape announces.
\<close>

record 'a ndarray =
  shape :: "nat list"
  data :: "'a list"

definition wf_array :: "'a ndarray \<Rightarrow> bool" where
  "wf_array a = (length (data a) = prod_list (shape a))"

text \<open>
  \<open>np.reshape(a, newshape)\<close> in C order keeps the flat buffer and changes the shape;
  it raises ValueError when the sizes differ.
\<close>

definition np_reshape :: "'a ndarray \<Rightarrow> nat list \<Rightarrow> error + 'a ndarray" where
  "np_reshape a newshape =
     (if prod_list newshape = prod_list (shape a) then Inr (a\<lparr>shape := newshape\<rparr>)
      else Inl ValueError)"

text \<open>\<open>a0, a1, a2, a3 = np.shape(x)\<close>: unpacking raises ValueError unless the rank is 4.\<close>

fun unpack4 :: "nat list \<Rightarrow> error + (nat \<times> nat \<times> nat \<times> nat)" where
  "unpack4 [a0, a1, a2, a3] = Inr (a0, a1, a2, a3)"
| "unpack4 _ = Inl ValueError"

text \<open>
  \<open>rnn_format_x\<close> (utils.py, lines 79-89): every array of the list is reshaped to
  \<open>(a0, a2, a1*a3)\<close>; the first exception ends the loop.
\<close>

fun rnn_format_x :: "'a ndarray list \<Rightarrow> error + 'a ndarray list" where
  "rnn_format_x [] = Inr []"
| "rnn_format_x (x # xs) =
     (case unpack4 (shape x) of
        Inl e \<Rightarrow> Inl e
      | Inr (a0, a1, a2, a3) \<Rightarrow>
          (case np_reshape x [a0, a2, a1 * a3] of
             Inl e \<Rightarrow> Inl e
           | Inr r \<Rightarrow>
               (case rnn_format_x xs of
                  Inl e \<Rightarrow> Inl e
                | Inr rs \<Rightarrow> Inr (r # rs))))"

text \<open>
  \<open>linear_format_x\<close> (utils.py, lines 162-172): every array is reshaped to
  \<open>(a0, a1*a2*a3)\<close>.
\<close>

fun linear_format_x :: "'a ndarray list \<Rightarrow> error + 'a ndarray list" where
  "linear_format_x [] = Inr []"
| "linear_format_x (x # xs) =
     (case unpack4 (shape x) of
        Inl e \<Rightarrow> Inl e
      | Inr (a0, a1, a2, a3) \<Rightarrow>
          (case np_reshape x [a0, a1 * a2 * a3] of
             Inl e \<Rightarrow> Inl e
           | Inr r \<Rightarrow>
               (case linear_format_x xs of
                  Inl e \<Rightarrow> Inl e
                | Inr rs \<Rightarrow> Inr (r # rs))))"

subsection \<open>Indexing along the first axis\<close>

text \<open>
  Python slices of a one-dimensional sequence: \<open>xs[:k]\<close> and \<open>xs[k:]\<close>. A negative
  bound counts from the end and every bound is clipped to the sequence.
\<close>

definition slice_to :: "'a list \<Rightarrow> int \<Rightarrow> 'a list" where
  "slice_to xs k = (if k < 0 then take (nat (int (length xs) + k)) xs else take (nat k) xs)"

definition slice_from :: "'a list \<Rightarrow> int \<Rightarrow> 'a list" where
  "slice_from xs k = (if k < 0 then drop (nat (int (length xs) + k)) xs else drop (nat k) xs)"

text \<open>Row \<open>i\<close> of an array: the \<open>i\<close>-th block of the buffer along the first axis.\<close>

definition row :: "'a ndarray \<Rightarrow> nat \<Rightarrow> 'a list" where
  "row a i = take (prod_list (tl (shape a))) (drop (i * prod_list (tl (shape a))) (data a))"

definition select_rows :: "'a ndarray \<Rightarrow> nat list \<Rightarrow> 'a ndarray" where
  "select_rows a idx = \<lparr>shape = length idx # tl (shape a), data = concat (map (row a) idx)\<rparr>"

text \<open>
  \<open>a[idx]\<close> for an integer index array \<open>idx\<close>: a new array made of the selected rows;
  IndexError for an index outside the first axis, or when the array has no axis.
\<close>

definition take_rows :: "'a ndarray \<Rightarrow> nat list \<Rightarrow> error + 'a ndarray" where
  "take_rows a idx =
     (case shape a of
        [] \<Rightarrow> Inl IndexError
      | n # rest \<Rightarrow> if list_all (\<lambda>i. i < n) idx then Inr (select_rows a idx) else Inl IndexError)"

text \<open>\<open>a[:k]\<close> on an array: the leading rows, by the rule of \<open>slice_to\<close>.\<close>

definition rows_to :: "'a ndarray \<Rightarrow> int \<Rightarrow> error + 'a ndarray" where
  "rows_to a k =
     (case shape a of
        [] \<Rightarrow> Inl IndexError
      | n # rest \<Rightarrow>
          let m = length (slice_to [0..<n] k)
          in Inr \<lparr>shape = m # rest, data = take (m * prod_list rest) (data a)\<rparr>)"

text \<open>\<open>np.shape(a)[0]\<close>.\<close>

definition first_dim :: "'a ndarray \<Rightarrow> error + nat" where
  "first_dim a = (case shape a of [] \<Rightarrow> Inl IndexError | n # rest \<Rightarrow> Inr n)"

subsection \<open>\<open>split_data\<close>\<close>

text \<open>
  \<open>int(x)\<close> truncates towards zero. The fraction \<open>split\<close> is a rational number here:
  the rounding of binary floating point in \<open>(1 - split) * n\<close> is not modelled.
\<close>

definition py_int :: "rat \<Rightarrow> int" where
  "py_int x = (if 0 \<le> x then \<lfloor>x\<rfloor> else \<lceil>x\<rceil>)"

text \<open>The loop of lines 26-28: both index slices are applied to every array.\<close>

fun split_rows ::
  "nat list \<Rightarrow> int \<Rightarrow> 'a ndarray list \<Rightarrow> error + ('a ndarray list \<times> 'a ndarray list)" where
  "split_rows idx split_idx [] = Inr ([], [])"
| "split_rows idx split_idx (d # ds) =
     (case take_rows d (slice_to idx split_idx) of
        Inl e \<Rightarrow> Inl e
      | Inr a \<Rightarrow>
          (case take_rows d (slice_from idx split_idx) of
             Inl e \<Rightarrow> Inl e
           | Inr b \<Rightarrow>
               (case split_rows idx split_idx ds of
                  Inl e \<Rightarrow> Inl e
                | Inr (split_a, split_b) \<Rightarrow> Inr (a # split_a, b # split_b))))"

text \<open>
  The loop of lines 31-40 after its first iteration has fixed the two remainders:
  \<open>split_a[i] = split_a[i][:-remainder_a]\<close> and the same for \<open>split_b\<close>.
\<close>

fun trim ::
  "int \<Rightarrow> int \<Rightarrow> 'a ndarray list \<Rightarrow> 'a ndarray list \<Rightarrow>
     error + ('a ndarray list \<times> 'a ndarray list)" where
  "trim remainder_a remainder_b [] split_b = Inr ([], split_b)"
| "trim remainder_a remainder_b (a # split_a) [] = Inl IndexError"
| "trim remainder_a remainder_b (a # split_a) (b # split_b) =
     (case rows_to a (- remainder_a) of
        Inl e \<Rightarrow> Inl e
      | Inr a' \<Rightarrow>
          (case rows_to b (- remainder_b) of
             Inl e \<Rightarrow> Inl e
           | Inr b' \<Rightarrow>
               (case trim remainder_a remainder_b split_a split_b of
                  Inl e \<Rightarrow> Inl e
                | Inr (as', bs') \<Rightarrow> Inr (a' # as', b' # bs'))))"

text \<open>
  Lines 30-40: \<open>batch_size\<close> is \<open>None\<close> or an integer, and \<open>if batch_size:\<close> is false
  for \<open>None\<close> and for 0. The remainders are computed in the first iteration, from the
  first array of each group.
\<close>

definition trim_batch ::
  "int option \<Rightarrow> 'a ndarray list \<Rightarrow> 'a ndarray list \<Rightarrow>
     error + ('a ndarray list \<times> 'a ndarray list)" where
  "trim_batch batch_size split_a split_b =
     (case batch_size of
        None \<Rightarrow> Inr (split_a, split_b)
      | Some bsz \<Rightarrow>
          if bsz = 0 then Inr (split_a, split_b)
          else
            (case split_a of
               [] \<Rightarrow> Inr ([], split_b)
             | a0 # as' \<Rightarrow>
                 (case split_b of
                    [] \<Rightarrow> Inl IndexError
                  | b0 # bs' \<Rightarrow>
                      (case first_dim a0 of
                         Inl e \<Rightarrow> Inl e
                       | Inr n_samples_a \<Rightarrow>
                           (case first_dim b0 of
                              Inl e \<Rightarrow> Inl e
                            | Inr n_samples_b \<Rightarrow>
                                trim (int n_samples_a mod bsz) (int n_samples_b mod bsz)
                                  split_a split_b)))))"

text \<open>
  \<open>split_data\<close> (utils.py, lines 11-42). \<open>shuffle\<close> is the permutation that
  \<open>np.random.shuffle\<close> applies to the index array.
\<close>

definition split_data ::
  "(nat list \<Rightarrow> nat list) \<Rightarrow> 'a ndarray list \<Rightarrow> rat \<Rightarrow> bool \<Rightarrow> int option \<Rightarrow>
     error + ('a ndarray list \<times> 'a ndarray list)" where
  "split_data shuffle list_of_data split rand batch_size =
     (case list_of_data of
        [] \<Rightarrow> Inl IndexError
      | d0 # ds \<Rightarrow>
          (case first_dim d0 of
             Inl e \<Rightarrow> Inl e
           | Inr n \<Rightarrow>
               let split_idx = py_int ((1 - split) * of_nat n);
                   idx = (if rand then shuffle [0..<n] else [0..<n])
               in (case split_rows idx split_idx list_of_data of
                     Inl e \<Rightarrow> Inl e
                   | Inr (split_a, split_b) \<Rightarrow> trim_batch batch_size split_a split_b)))"

subsection \<open>\<open>confusion_mtx\<close>\<close>

text \<open>
  A floating-point entry of a numpy array. A division of numpy does not raise on a zero
  denominator: it warns and stores \<open>nan\<close> for \<open>0/0\<close> and an infinity otherwise.
  Finite quotients are exact rationals here: binary rounding is not modelled.
\<close>

datatype npfloat = Finite rat | PosInf | NegInf | NaN

definition np_divide :: "nat \<Rightarrow> nat \<Rightarrow> npfloat" where
  "np_divide c s =
     (if s = 0 then (if c = 0 then NaN else PosInf) else Finite (of_nat c / of_nat s))"

text \<open>
  \<open>sklearn.metrics.confusion_matrix(y_true, y_pred, labels)\<close>: entry \<open>(i, j)\<close> counts the
  samples whose true label is \<open>labels[i]\<close> and whose predicted label is \<open>labels[j]\<close>;
  samples with another label are ignored. It raises ValueError when the two label
  arrays differ in length and when no label of \<open>labels\<close> occurs in \<open>y_true\<close>.
\<close>

definition confusion_matrix :: "int list \<Rightarrow> int list \<Rightarrow> int list \<Rightarrow> error + nat list list" where
  "confusion_matrix y_true y_pred labels =
     (if length y_true \<noteq> length y_pred then Inl ValueError
      else if list_all (\<lambda>l. l \<notin> set y_true) labels then Inl ValueError
      else Inr (map (\<lambda>t. map (\<lambda>p. count_list (zip y_true y_pred) (t, p)) labels) labels))"

text \<open>
  \<open>confusion_mtx\<close> (utils.py, lines 58-63). \<open>np.ravel(np.array(y))\<close> is the flat buffer
  of \<open>y\<close>; \<open>cm.sum(axis=1)[:, np.newaxis]\<close> divides every entry by the sum of its row.
\<close>

definition confusion_mtx :: "int ndarray \<Rightarrow> int ndarray \<Rightarrow> error + npfloat list list" where
  "confusion_mtx y_true y_pred =
     (case confusion_matrix (data y_true) (data y_pred) [1, 0] of
        Inl e \<Rightarrow> Inl e
      | Inr cm \<Rightarrow> Inr (map (\<lambda>r. map (\<lambda>c. np_divide c (sum_list r)) r) cm))"

text \<open>An entry is a number when it is neither \<open>nan\<close> nor an infinity.\<close>

fun is_number :: "npfloat \<Rightarrow> bool" where
  "is_number (Finite q) = True"
| "is_number x = False"

definition all_numbers :: "npfloat list list \<Rightarrow> bool" where
  "all_numbers m = list_all (list_all is_number) m"

section \<open>The downloader: \<open>src/data/supermag_download.py\<close>\<close>

text \<open>
  The script runs under Python 2 and under Python 3, which differ in two places that
  matter here: the division of a \<open>timedelta\<close> by an integer, and the scope of the
  name bound by \<open>except ... as e\<close>. Both are modelled, selected by the version.
\<close>

datatype py_version = Python2 | Python3

subsection \<open>\<open>date_range\<close>\<close>




subsection \<open>Requests with retries\<close>

definition MAX_TRIES :: nat where
  "MAX_TRIES = 5"

definition SLEEP_TIME :: nat where
  "SLEEP_TIME = 5"

text \<open>
  The two endpoints, with the parameters of the request: the start and length of the
  interval, and the station for a data request.
\<close>

datatype 'p request = GET_STATION_LIST 'p | GET_DATA 'p string

text \<open>
  The effects of the script on the world: how many times \<open>requests.get\<close> was called,
  the seconds spent in \<open>time.sleep\<close>, and the lines printed.
\<close>

datatype line =
  CouldntGetData string
| CouldntGetStations
| ExceptionText
| StationCount nat
| StationProgress nat nat string

record world =
  requests :: nat
  slept :: nat
  printed :: "line list"

text \<open>
  The network decides the outcome of every call of \<open>requests.get\<close>: \<open>net k rq\<close> is the
  response to the request \<open>rq\<close> when it is the \<open>k\<close>-th call of the run, and \<open>None\<close> when
  that call raises (a timeout, a connection error).

  The retry loop of lines 61-68 and of lines 80-87: it returns the number of failed
  tries and the response, if one arrived.
\<close>

function retry_get ::
  "(nat \<Rightarrow> 'p request \<Rightarrow> 'resp option) \<Rightarrow> 'p request \<Rightarrow> nat \<Rightarrow> world \<Rightarrow>
     nat \<times> 'resp option \<times> world" where
  "retry_get net rq tries w =
     (if tries < MAX_TRIES then
        (case net (requests w) rq of
           Some resp \<Rightarrow> (tries, Some resp, w\<lparr>requests := requests w + 1\<rparr>)
         | None \<Rightarrow>
             retry_get net rq (tries + 1)
               (w\<lparr>requests := requests w + 1, slept := slept w + SLEEP_TIME\<rparr>))
      else (tries, None, w))"
  by pat_completeness auto
termination
  by (relation "measure (\<lambda>(net, rq, tries, w). MAX_TRIES - tries)") auto

text \<open>
  What the script takes from its libraries: \<open>read_csv\<close> stands for lines 72-76 (pandas
  parses the response and indexes the table by time), \<open>json_stations\<close> for
  \<open>station_rq.json()['stations']\<close>, \<open>ds_new\<close> for \<open>xr.Dataset()\<close> and \<open>ds_setitem\<close> for
  \<open>data[station] = df\<close>, where \<open>df\<close> may be \<open>None\<close>. Each may raise.
\<close>

record ('resp, 'df, 'ds) lib =
  read_csv :: "'resp \<Rightarrow> error + 'df"
  json_stations :: "'resp \<Rightarrow> error + string list"
  ds_new :: "'ds"
  ds_setitem :: "'ds \<Rightarrow> string \<Rightarrow> 'df option \<Rightarrow> error + 'ds"

text \<open>
  \<open>getDataForStation\<close> (lines 60-76). It returns \<open>None\<close> after \<open>MAX_TRIES\<close> failed
  tries; \<open>data_rq\<close> is unbound only on that path.
\<close>

definition getDataForStation ::
  "(nat \<Rightarrow> 'p request \<Rightarrow> 'resp option) \<Rightarrow> ('resp, 'df, 'ds) lib \<Rightarrow> 'p \<Rightarrow> string \<Rightarrow> world \<Rightarrow>
     (error + 'df option) \<times> world" where
  "getDataForStation net l params station w =
     (case retry_get net (GET_DATA params station) 0 w of
        (tries, data_rq, w') \<Rightarrow>
          if tries = MAX_TRIES
          then (Inr None, w'\<lparr>printed := printed w' @ [CouldntGetData station]\<rparr>)
          else
            (case data_rq of
               None \<Rightarrow> (Inl UnboundLocalError, w')
             | Some resp \<Rightarrow>
                 (case read_csv l resp of
                    Inl e \<Rightarrow> (Inl e, w')
                  | Inr df \<Rightarrow> (Inr (Some df), w'))))"

text \<open>
  \<open>getAvailableStations\<close> (lines 79-98). After \<open>MAX_TRIES\<close> failed tries it prints
  a line and then evaluates \<open>print(e)\<close>: Python 3 unbinds \<open>e\<close> at the end of the
  \<open>except\<close> clause, so the name is unbound and UnboundLocalError is raised; Python 2
  keeps it, prints and returns \<open>None\<close>. A response without a station list is caught,
  printed and answered by \<open>None\<close>.
\<close>

definition getAvailableStations ::
  "py_version \<Rightarrow> (nat \<Rightarrow> 'p request \<Rightarrow> 'resp option) \<Rightarrow> ('resp, 'df, 'ds) lib \<Rightarrow> 'p \<Rightarrow> world \<Rightarrow>
     (error + string list option) \<times> world" where
  "getAvailableStations v net l params w =
     (case retry_get net (GET_STATION_LIST params) 0 w of
        (tries, station_rq, w') \<Rightarrow>
          if tries = MAX_TRIES
          then
            (case v of
               Python3 \<Rightarrow>
                 (Inl UnboundLocalError, w'\<lparr>printed := printed w' @ [CouldntGetStations]\<rparr>)
             | Python2 \<Rightarrow>
                 (Inr None, w'\<lparr>printed := printed w' @ [CouldntGetStations, ExceptionText]\<rparr>))
          else
            (case station_rq of
               None \<Rightarrow> (Inl UnboundLocalError, w')
             | Some resp \<Rightarrow>
                 (case json_stations l resp of
                    Inl e \<Rightarrow>
                      (Inr None, w'\<lparr>printed := printed w' @ [CouldntGetStations, ExceptionText]\<rparr>)
                  | Inr station_list \<Rightarrow> (Inr (Some station_list), w'))))"

text \<open>
  The loop of lines 113-123 over the stations still to fetch; \<open>station_list\<close> is the
  whole list, for the progress line, and \<open>ds\<close> the dataset \<open>data\<close>. The result of the
  fetch is stored as it is.
\<close>

fun fetch_stations ::
  "(nat \<Rightarrow> 'p request \<Rightarrow> 'resp option) \<Rightarrow> ('resp, 'df, 'ds) lib \<Rightarrow> 'p \<Rightarrow> string list \<Rightarrow>
     string list \<Rightarrow> 'ds \<Rightarrow> world \<Rightarrow> (error + 'ds) \<times> world" where
  "fetch_stations net l params station_list [] ds w = (Inr ds, w)"
| "fetch_stations net l params station_list (station # rest) ds w =
     (let w1 = w\<lparr>printed := printed w @
                 [StationProgress (length (takeWhile (\<lambda>x. x \<noteq> station) station_list) + 1)
                    (length station_list) station]\<rparr>
      in case getDataForStation net l params station w1 of
           (Inl e, w2) \<Rightarrow> (Inl e, w2)
         | (Inr df, w2) \<Rightarrow>
             (case ds_setitem l ds station df of
                Inl e \<Rightarrow> (Inl e, w2)
              | Inr ds' \<Rightarrow> fetch_stations net l params station_list rest ds' w2))"

text \<open>
  \<open>getDataForInterval\<close> (lines 101-125); \<open>params\<close> stands for the start date and the
  length of the interval. \<open>len(station_list)\<close> raises TypeError when the list is
  \<open>None\<close>.
\<close>

definition getDataForInterval ::
  "py_version \<Rightarrow> (nat \<Rightarrow> 'p request \<Rightarrow> 'resp option) \<Rightarrow> ('resp, 'df, 'ds) lib \<Rightarrow> 'p \<Rightarrow> world \<Rightarrow>
     (error + 'ds) \<times> world" where
  "getDataForInterval v net l params w =
     (case getAvailableStations v net l params w of
        (Inl e, w1) \<Rightarrow> (Inl e, w1)
      | (Inr None, w1) \<Rightarrow> (Inl TypeError, w1)
      | (Inr (Some station_list), w1) \<Rightarrow>
          fetch_stations net l params station_list station_list (ds_new l)
            (w1\<lparr>printed := printed w1 @ [StationCount (length station_list)]\<rparr>))"

section \<open>Arrays in memory\<close>

text \<open>
  The same three functions with the memory of the arrays made explicit, to say what
  they write. Memory holds buffers, in two typed regions: integer buffers (index
  arrays) and value buffers (data arrays). The address of a buffer is its position in
  its region, and a new buffer is put at the end of the region.
\<close>

record 'a heap =
  ints :: "nat list list"
  vals :: "'a list list"

text \<open>
  An array object is a view: a shape, the address of a buffer and the position of its
  first element there. All views here are contiguous in C order.
\<close>

record view =
  vshape :: "nat list"
  base :: nat
  offset :: nat

definition buf_at :: "'b list list \<Rightarrow> nat \<Rightarrow> 'b list" where
  "buf_at bufs a = (if a < length bufs then bufs ! a else [])"

definition view_vals :: "'a heap \<Rightarrow> view \<Rightarrow> 'a list" where
  "view_vals h v = take (prod_list (vshape v)) (drop (offset v) (buf_at (vals h) (base v)))"

definition view_ints :: "'a heap \<Rightarrow> view \<Rightarrow> nat list" where
  "view_ints h v = take (prod_list (vshape v)) (drop (offset v) (buf_at (ints h) (base v)))"

text \<open>The array that a view of a value buffer stands for.\<close>

definition array_of :: "'a heap \<Rightarrow> view \<Rightarrow> 'a ndarray" where
  "array_of h v = \<lparr>shape = vshape v, data = view_vals h v\<rparr>"

text \<open>\<open>np.arange(n)\<close> allocates an integer buffer.\<close>

definition np_arange :: "nat \<Rightarrow> 'a heap \<Rightarrow> view \<times> 'a heap" where
  "np_arange n h =
     (\<lparr>vshape = [n], base = length (ints h), offset = 0\<rparr>, h\<lparr>ints := ints h @ [[0..<n]]\<rparr>)"

text \<open>\<open>np.random.shuffle(idx)\<close> permutes the elements of the view in its buffer.\<close>

definition np_random_shuffle :: "(nat list \<Rightarrow> nat list) \<Rightarrow> view \<Rightarrow> 'a heap \<Rightarrow> 'a heap" where
  "np_random_shuffle shuffle v h =
     (let buf = buf_at (ints h) (base v)
      in h\<lparr>ints := (ints h)
           [base v := take (offset v) buf @ shuffle (view_ints h v)
                        @ drop (offset v + prod_list (vshape v)) buf]\<rparr>)"

text \<open>
  Basic slices \<open>v[:k]\<close> and \<open>v[k:]\<close> along the first axis are views of the same buffer;
  \<open>np.reshape\<close> of a contiguous array is a view of the same buffer too.
\<close>

definition view_to :: "view \<Rightarrow> int \<Rightarrow> error + view" where
  "view_to v k =
     (case vshape v of
        [] \<Rightarrow> Inl IndexError
      | n # rest \<Rightarrow> Inr (v\<lparr>vshape := length (slice_to [0..<n] k) # rest\<rparr>))"

definition view_from :: "view \<Rightarrow> int \<Rightarrow> error + view" where
  "view_from v k =
     (case vshape v of
        [] \<Rightarrow> Inl IndexError
      | n # rest \<Rightarrow>
          let m = length (slice_from [0..<n] k)
          in Inr (v\<lparr>vshape := m # rest, offset := offset v + (n - m) * prod_list rest\<rparr>))"

definition reshape_view :: "view \<Rightarrow> nat list \<Rightarrow> error + view" where
  "reshape_view v newshape =
     (if prod_list newshape = prod_list (vshape v) then Inr (v\<lparr>vshape := newshape\<rparr>)
      else Inl ValueError)"

text \<open>
  \<open>d[idx]\<close> with an index array: the selected rows are copied to a new value buffer.
\<close>

definition take_rows_mem :: "view \<Rightarrow> view \<Rightarrow> 'a heap \<Rightarrow> (error + view) \<times> 'a heap" where
  "take_rows_mem d idx h =
     (case vshape d of
        [] \<Rightarrow> (Inl IndexError, h)
      | n # rest \<Rightarrow>
          if list_all (\<lambda>i. i < n) (view_ints h idx)
          then (Inr \<lparr>vshape = length (view_ints h idx) # rest, base = length (vals h), offset = 0\<rparr>,
                h\<lparr>vals := vals h @ [data (select_rows (array_of h d) (view_ints h idx))]\<rparr>)
          else (Inl IndexError, h))"

fun rnn_format_x_mem :: "view list \<Rightarrow> 'a heap \<Rightarrow> (error + view list) \<times> 'a heap" where
  "rnn_format_x_mem [] h = (Inr [], h)"
| "rnn_format_x_mem (x # xs) h =
     (case unpack4 (vshape x) of
        Inl e \<Rightarrow> (Inl e, h)
      | Inr (a0, a1, a2, a3) \<Rightarrow>
          (case reshape_view x [a0, a2, a1 * a3] of
             Inl e \<Rightarrow> (Inl e, h)
           | Inr r \<Rightarrow>
               (case rnn_format_x_mem xs h of
                  (Inl e, h') \<Rightarrow> (Inl e, h')
                | (Inr rs, h') \<Rightarrow> (Inr (r # rs), h'))))"

fun linear_format_x_mem :: "view list \<Rightarrow> 'a heap \<Rightarrow> (error + view list) \<times> 'a heap" where
  "linear_format_x_mem [] h = (Inr [], h)"
| "linear_format_x_mem (x # xs) h =
     (case unpack4 (vshape x) of
        Inl e \<Rightarrow> (Inl e, h)
      | Inr (a0, a1, a2, a3) \<Rightarrow>
          (case reshape_view x [a0, a1 * a2 * a3] of
             Inl e \<Rightarrow> (Inl e, h)
           | Inr r \<Rightarrow>
               (case linear_format_x_mem xs h of
                  (Inl e, h') \<Rightarrow> (Inl e, h')
                | (Inr rs, h') \<Rightarrow> (Inr (r # rs), h'))))"

text \<open>The loop of lines 26-28 of \<open>split_data\<close>.\<close>

fun split_rows_mem ::
  "view \<Rightarrow> int \<Rightarrow> view list \<Rightarrow> 'a heap \<Rightarrow> (error + (view list \<times> view list)) \<times> 'a heap" where
  "split_rows_mem idx split_idx [] h = (Inr ([], []), h)"
| "split_rows_mem idx split_idx (d # ds) h =
     (case view_to idx split_idx of
        Inl e \<Rightarrow> (Inl e, h)
      | Inr idx_a \<Rightarrow>
          (case take_rows_mem d idx_a h of
             (Inl e, h1) \<Rightarrow> (Inl e, h1)
           | (Inr a, h1) \<Rightarrow>
               (case view_from idx split_idx of
                  Inl e \<Rightarrow> (Inl e, h1)
                | Inr idx_b \<Rightarrow>
                    (case take_rows_mem d idx_b h1 of
                       (Inl e, h2) \<Rightarrow> (Inl e, h2)
                     | (Inr b, h2) \<Rightarrow>
                         (case split_rows_mem idx split_idx ds h2 of
                            (Inl e, h3) \<Rightarrow> (Inl e, h3)
                          | (Inr (split_a, split_b), h3) \<Rightarrow>
                              (Inr (a # split_a, b # split_b), h3))))))"

text \<open>The loop of lines 31-40: the trimmed arrays are slices, hence views.\<close>

fun trim_views ::
  "int \<Rightarrow> int \<Rightarrow> view list \<Rightarrow> view list \<Rightarrow> error + (view list \<times> view list)" where
  "trim_views remainder_a remainder_b [] split_b = Inr ([], split_b)"
| "trim_views remainder_a remainder_b (a # split_a) [] = Inl IndexError"
| "trim_views remainder_a remainder_b (a # split_a) (b # split_b) =
     (case view_to a (- remainder_a) of
        Inl e \<Rightarrow> Inl e
      | Inr a' \<Rightarrow>
          (case view_to b (- remainder_b) of
             Inl e \<Rightarrow> Inl e
           | Inr b' \<Rightarrow>
               (case trim_views remainder_a remainder_b split_a split_b of
                  Inl e \<Rightarrow> Inl e
                | Inr (as', bs') \<Rightarrow> Inr (a' # as', b' # bs'))))"

definition first_dim_view :: "view \<Rightarrow> error + nat" where
  "first_dim_view v = (case vshape v of [] \<Rightarrow> Inl IndexError | n # rest \<Rightarrow> Inr n)"

definition trim_batch_views ::
  "int option \<Rightarrow> view list \<Rightarrow> view list \<Rightarrow> error + (view list \<times> view list)" where
  "trim_batch_views batch_size split_a split_b =
     (case batch_size of
        None \<Rightarrow> Inr (split_a, split_b)
      | Some bsz \<Rightarrow>
          if bsz = 0 then Inr (split_a, split_b)
          else
            (case split_a of
               [] \<Rightarrow> Inr ([], split_b)
             | a0 # as' \<Rightarrow>
                 (case split_b of
                    [] \<Rightarrow> Inl IndexError
                  | b0 # bs' \<Rightarrow>
                      (case first_dim_view a0 of
                         Inl e \<Rightarrow> Inl e
                       | Inr n_samples_a \<Rightarrow>
                           (case first_dim_view b0 of
                              Inl e \<Rightarrow> Inl e
                            | Inr n_samples_b \<Rightarrow>
                                trim_views (int n_samples_a mod bsz) (int n_samples_b mod bsz)
                                  split_a split_b)))))"

definition split_data_mem ::
  "(nat list \<Rightarrow> nat list) \<Rightarrow> view list \<Rightarrow> rat \<Rightarrow> bool \<Rightarrow> int option \<Rightarrow> 'a heap \<Rightarrow>
     (error + (view list \<times> view list)) \<times> 'a heap" where
  "split_data_mem shuffle list_of_data split rand batch_size h =
     (case list_of_data of
        [] \<Rightarrow> (Inl IndexError, h)
      | d0 # ds \<Rightarrow>
          (case first_dim_view d0 of
             Inl e \<Rightarrow> (Inl e, h)
           | Inr n \<Rightarrow>
               let split_idx = py_int ((1 - split) * of_nat n);
                   (idx, h1) = np_arange n h;
                   h2 = (if rand then np_random_shuffle shuffle idx h1 else h1)
               in (case split_rows_mem idx split_idx list_of_data h2 of
                     (Inl e, h3) \<Rightarrow> (Inl e, h3)
                   | (Inr (split_a, split_b), h3) \<Rightarrow>
                       (trim_batch_views batch_size split_a split_b, h3))))"

text \<open>
  Memory \<open>h'\<close> extends memory \<open>h\<close> when every buffer of \<open>h\<close> is in \<open>h'\<close> at its address
  with its contents.
\<close>

definition extends :: "'a heap \<Rightarrow> 'a heap \<Rightarrow> bool" where
  "extends h h' = (prefix (ints h) (ints h') \<and> prefix (vals h) (vals h'))"

text \<open>The arrays that the views of a result stand for.\<close>

definition arrays_of ::
  "'a heap \<Rightarrow> error + (view list \<times> view list) \<Rightarrow> error + ('a ndarray list \<times> 'a ndarray list)" where
  "arrays_of h r =
     (case r of
        Inl e \<Rightarrow> Inl e
      | Inr (split_a, split_b) \<Rightarrow> Inr (map (array_of h) split_a, map (array_of h) split_b))"

section \<open>Shape adapters\<close>

lemma unpack4_rank4:
  "length s = 4 \<Longrightarrow> unpack4 s = Inr (s ! 0, s ! 1, s ! 2, s ! 3)"
proof -
  assume "length s = 4"
  then obtain a b c d where "s = [a, b, c, d]"
    by (cases s; simp; rename_tac ys; case_tac ys; simp; rename_tac zs; case_tac zs; simp;
        rename_tac ws; case_tac ws; simp)
  then show ?thesis by simp
qed

text \<open>
  C1, as amended. \<open>rnn_format_x\<close> maps every array of shape \<open>(a0, a1, a2, a3)\<close> to
  the array of shape \<open>(a0, a2, a1*a3)\<close> over the same row-major buffer: the second
  dimension of the result is the third of the input, and the last dimension has
  \<open>a1*a3\<close> entries. The element order of the buffer is kept, so reshaping each result
  back to the shape of its input returns the input.
\<close>

theorem rnn_format_x_reshapes:
  assumes "\<forall>x \<in> set xs. length (shape x) = 4"
  shows "rnn_format_x xs =
           Inr (map (\<lambda>x. x\<lparr>shape := [shape x ! 0, shape x ! 2, shape x ! 1 * shape x ! 3]\<rparr>) xs)
       \<and> (\<forall>x \<in> set xs.
            np_reshape (x\<lparr>shape := [shape x ! 0, shape x ! 2, shape x ! 1 * shape x ! 3]\<rparr>)
              (shape x) = Inr x)"
proof
  show "rnn_format_x xs =
          Inr (map (\<lambda>x. x\<lparr>shape := [shape x ! 0, shape x ! 2, shape x ! 1 * shape x ! 3]\<rparr>) xs)"
    using assms
  proof (induction xs)
    case Nil
    show ?case by simp
  next
    case (Cons x xs)
    then have "unpack4 (shape x) = Inr (shape x ! 0, shape x ! 1, shape x ! 2, shape x ! 3)"
      by (simp add: unpack4_rank4)
    moreover have "prod_list (shape x) = shape x ! 0 * shape x ! 1 * shape x ! 2 * shape x ! 3"
    proof -
      from Cons.prems have "length (shape x) = 4" by simp
      then obtain a b c d where "shape x = [a, b, c, d]"
        using unpack4_rank4 [of "shape x"] by (cases "shape x" rule: unpack4.cases) auto
      then show ?thesis by simp
    qed
    ultimately show ?case
      using Cons by (simp add: np_reshape_def mult_ac)
  qed
next
  show "\<forall>x \<in> set xs.
          np_reshape (x\<lparr>shape := [shape x ! 0, shape x ! 2, shape x ! 1 * shape x ! 3]\<rparr>)
            (shape x) = Inr x"
  proof
    fix x assume "x \<in> set xs"
    with assms have "length (shape x) = 4" by simp
    then obtain a b c d where "shape x = [a, b, c, d]"
      using unpack4_rank4 [of "shape x"] by (cases "shape x" rule: unpack4.cases) auto
    then show "np_reshape (x\<lparr>shape := [shape x ! 0, shape x ! 2, shape x ! 1 * shape x ! 3]\<rparr>)
                 (shape x) = Inr x"
      by (simp add: np_reshape_def mult_ac)
  qed
qed

theorem rnn_format_x_reshapes_witness:
  "rnn_format_x [\<lparr>shape = [1, 2, 3, 1], data = [10, 11, 12, 13, 14, 15 :: int]\<rparr>] =
     Inr [\<lparr>shape = [1, 3, 2], data = [10, 11, 12, 13, 14, 15]\<rparr>]
   \<and> np_reshape \<lparr>shape = [1, 3, 2], data = [10, 11, 12, 13, 14, 15 :: int]\<rparr> [1, 2, 3, 1] =
     Inr \<lparr>shape = [1, 2, 3, 1], data = [10, 11, 12, 13, 14, 15]\<rparr>"
  using rnn_format_x_reshapes
    [of "[\<lparr>shape = [1, 2, 3, 1], data = [10, 11, 12, 13, 14, 15 :: int]\<rparr>]"]
  by simp

text \<open>
  C1, as stated, fails on the shape: an array of shape \<open>(10, 128, 2, 3)\<close> is mapped to
  shape \<open>(10, 2, 384)\<close>, not to \<open>(10, 128, 6)\<close>.
\<close>

theorem rnn_format_x_shape_counterexample:
  "rnn_format_x [\<lparr>shape = [10, 128, 2, 3], data = replicate 7680 (0 :: int)\<rparr>] =
     Inr [\<lparr>shape = [10, 2, 384], data = replicate 7680 0\<rparr>]
   \<and> [10, 2, 384] \<noteq> [10, 128, 6 :: nat]"
  by (simp add: np_reshape_def)

section \<open>The splitter\<close>

lemma slice_to_from_append: "slice_to xs k @ slice_from xs k = xs"
  by (simp add: slice_to_def slice_from_def)

lemma take_rows_in_range:
  assumes "shape d = n # rest" and "set idx \<subseteq> {0..<n}"
  shows "take_rows d idx = Inr (select_rows d idx)"
  using assms by (auto simp: take_rows_def list_all_iff)

lemma split_rows_in_range:
  assumes "\<forall>d \<in> set ds. shape d \<noteq> [] \<and> hd (shape d) = n"
    and "set idx \<subseteq> {0..<n}"
  shows "split_rows idx k ds =
           Inr (map (\<lambda>d. select_rows d (slice_to idx k)) ds,
                map (\<lambda>d. select_rows d (slice_from idx k)) ds)"
  using assms(1)
proof (induction ds)
  case Nil
  show ?case by simp
next
  case (Cons d ds)
  then obtain rest where sh: "shape d = n # rest"
    by (cases "shape d") auto
  have "set (slice_to idx k) \<subseteq> {0..<n}" "set (slice_from idx k) \<subseteq> {0..<n}"
    using assms(2) slice_to_from_append [of idx k]
    by (metis Un_subset_iff set_append)+
  then have "take_rows d (slice_to idx k) = Inr (select_rows d (slice_to idx k))"
    and "take_rows d (slice_from idx k) = Inr (select_rows d (slice_from idx k))"
    using sh by (simp_all add: take_rows_in_range)
  with Cons show ?case by simp
qed

text \<open>The \<open>j\<close>-th block of a concatenation of blocks of one length.\<close>

lemma concat_block:
  assumes "\<forall>x \<in> set xss. length x = m" and "j < length xss"
  shows "take m (drop (j * m) (concat xss)) = xss ! j"
  using assms
proof (induction xss arbitrary: j)
  case Nil
  then show ?case by simp
next
  case (Cons x xss)
  show ?case
  proof (cases j)
    case 0
    with Cons.prems show ?thesis by simp
  next
    case (Suc j')
    with Cons.prems have "take m (drop (j' * m) (concat xss)) = xss ! j'"
      by (intro Cons.IH) auto
    with Suc Cons.prems show ?thesis by (simp add: add.commute)
  qed
qed

lemma length_row:
  assumes "wf_array d" and "shape d = n # rest" and "i < n"
  shows "length (row d i) = prod_list rest"
proof -
  have "(i + 1) * prod_list rest \<le> n * prod_list rest"
    using assms(3) by (intro mult_le_mono1) simp
  then show ?thesis
    using assms by (simp add: row_def wf_array_def)
qed

lemma row_select_rows:
  assumes "wf_array d" and "shape d = n # rest" and "set idx \<subseteq> {0..<n}" and "j < length idx"
  shows "row (select_rows d idx) j = row d (idx ! j)"
proof -
  have "\<forall>x \<in> set (map (row d) idx). length x = prod_list rest"
    using assms(1-3) by (auto simp: length_row)
  then have "take (prod_list rest) (drop (j * prod_list rest) (concat (map (row d) idx)))
      = map (row d) idx ! j"
    using assms(4) by (intro concat_block) simp_all
  moreover have "tl (shape (select_rows d idx)) = rest"
    and "data (select_rows d idx) = concat (map (row d) idx)"
    using assms(2) by (simp_all add: select_rows_def)
  ultimately show ?thesis
    using assms(4) by (simp add: row_def [of "select_rows d idx"])
qed

text \<open>
  C3. For a non-empty list of arrays that all have \<open>n\<close> rows, and a shuffle that
  permutes the index array when \<open>random\<close> is true, \<open>split_data\<close> without a batch size
  returns two lists made
  from two index lists \<open>ia\<close> and \<open>ib\<close>: together they are a permutation of the row
  indices \<open>0..n-1\<close> (the identity when \<open>random\<close> is false), so they are disjoint, cover
  every index once and their sizes sum to \<open>n\<close>; the same \<open>ia\<close> and \<open>ib\<close> select the rows
  of every array of the list, and row \<open>j\<close> of a group is row \<open>ia ! j\<close> (or \<open>ib ! j\<close>) of
  the input array. This holds for every split fraction.
\<close>

theorem split_data_partitions:
  assumes "list_of_data \<noteq> []"
    and "\<forall>d \<in> set list_of_data. shape d \<noteq> [] \<and> hd (shape d) = n"
    and "rand \<longrightarrow> mset (shuffle [0..<n]) = mset [0..<n]"
  shows "\<exists>ia ib.
           split_data shuffle list_of_data split rand None =
             Inr (map (\<lambda>d. select_rows d ia) list_of_data,
                  map (\<lambda>d. select_rows d ib) list_of_data)
         \<and> mset (ia @ ib) = mset [0..<n]
         \<and> length ia + length ib = n
         \<and> set ia \<inter> set ib = {}
         \<and> set ia \<union> set ib = {0..<n}
         \<and> (\<not> rand \<longrightarrow> ia @ ib = [0..<n])
         \<and> (\<forall>d \<in> set list_of_data. wf_array d \<longrightarrow>
               (\<forall>j < length ia. row (select_rows d ia) j = row d (ia ! j))
             \<and> (\<forall>j < length ib. row (select_rows d ib) j = row d (ib ! j)))"
proof -
  define idx where "idx = (if rand then shuffle [0..<n] else [0..<n])"
  define k where "k = py_int ((1 - split) * of_nat n)"
  define ia where "ia = slice_to idx k"
  define ib where "ib = slice_from idx k"
  have perm: "mset idx = mset [0..<n]"
    using assms(3) by (simp add: idx_def)
  have app: "ia @ ib = idx"
    by (simp add: ia_def ib_def slice_to_from_append)
  have set_idx: "set idx = {0..<n}"
    using perm by (metis mset_eq_setD set_upt)
  have dist: "distinct idx"
    using perm by (metis distinct_upt mset_eq_imp_distinct_iff)
  obtain d0 ds where lod: "list_of_data = d0 # ds"
    using assms(1) by (cases list_of_data) auto
  then obtain rest0 where sh0: "shape d0 = n # rest0"
    using assms(2) by (cases "shape d0") auto
  have rows: "split_rows idx k list_of_data =
      Inr (map (\<lambda>d. select_rows d ia) list_of_data, map (\<lambda>d. select_rows d ib) list_of_data)"
    unfolding ia_def ib_def using split_rows_in_range [of list_of_data n idx k] assms(2) set_idx
    by simp
  have res: "split_data shuffle list_of_data split rand None =
      Inr (map (\<lambda>d. select_rows d ia) list_of_data, map (\<lambda>d. select_rows d ib) list_of_data)"
    using rows sh0 unfolding lod split_data_def idx_def k_def
    by (simp add: first_dim_def trim_batch_def Let_def)
  have len: "length ia + length ib = n"
    using app perm by (metis diff_zero length_append length_upt mset_eq_length)
  have disj: "set ia \<inter> set ib = {}"
    using dist app by (metis distinct_append)
  have un: "set ia \<union> set ib = {0..<n}"
    using set_idx app by (metis set_append)
  have nor: "\<not> rand \<longrightarrow> ia @ ib = [0..<n]"
    using app by (simp add: idx_def)
  have rws: "\<forall>d \<in> set list_of_data. wf_array d \<longrightarrow>
               (\<forall>j < length ia. row (select_rows d ia) j = row d (ia ! j))
             \<and> (\<forall>j < length ib. row (select_rows d ib) j = row d (ib ! j))"
  proof (intro ballI impI conjI allI)
    fix d j assume d: "d \<in> set list_of_data" and wf: "wf_array d"
    from d assms(2) obtain rest where sh: "shape d = n # rest"
      by (cases "shape d") auto
    have sa: "set ia \<subseteq> {0..<n}" and sb: "set ib \<subseteq> {0..<n}"
      using un by auto
    { assume "j < length ia"
      then show "row (select_rows d ia) j = row d (ia ! j)"
        using wf sh sa by (intro row_select_rows) }
    { assume "j < length ib"
      then show "row (select_rows d ib) j = row d (ib ! j)"
        using wf sh sb by (intro row_select_rows) }
  qed
  from res app perm len disj un nor rws show ?thesis
    by (intro exI [of _ ia] exI [of _ ib]) simp
qed

theorem split_data_partitions_witness:
  "\<exists>ia ib.
     split_data rev
       [\<lparr>shape = [4, 2], data = [10, 11, 12, 13, 14, 15, 16, 17 :: int]\<rparr>,
        \<lparr>shape = [4, 1], data = [1, 0, 1, 0]\<rparr>] (1 / 4) True None =
       Inr (map (\<lambda>d. select_rows d ia)
              [\<lparr>shape = [4, 2], data = [10, 11, 12, 13, 14, 15, 16, 17]\<rparr>,
               \<lparr>shape = [4, 1], data = [1, 0, 1, 0]\<rparr>],
            map (\<lambda>d. select_rows d ib)
              [\<lparr>shape = [4, 2], data = [10, 11, 12, 13, 14, 15, 16, 17]\<rparr>,
               \<lparr>shape = [4, 1], data = [1, 0, 1, 0]\<rparr>])
   \<and> mset (ia @ ib) = mset [0..<4]
   \<and> length ia + length ib = 4
   \<and> set ia \<inter> set ib = {}"
  using split_data_partitions
    [where list_of_data = "[\<lparr>shape = [4, 2], data = [10, 11, 12, 13, 14, 15, 16, 17 :: int]\<rparr>,
          \<lparr>shape = [4, 1], data = [1, 0, 1, 0]\<rparr>]"
      and n = 4 and shuffle = rev and split = "1 / 4" and rand = True]
  by simp blast

text \<open>A remainder of zero empties the array: \<open>a[:-0]\<close> is \<open>a[:0]\<close>.\<close>

lemma rows_to_zero_remainder:
  "shape a = n # rest \<Longrightarrow> rows_to a (- 0) = Inr \<lparr>shape = 0 # rest, data = []\<rparr>"
  by (simp add: rows_to_def slice_to_def)

text \<open>
  C2. The code at a group whose size is an exact multiple of the batch size: four rows,
  split in two groups of two, batch size 2. Both remainders are 0, the slice
  \<open>[:-0]\<close> is \<open>[:0]\<close>, and both groups come back empty; without a batch size the
  groups hold two rows each.
\<close>

theorem split_data_empties_exact_multiple:
  "split_data id [\<lparr>shape = [4], data = [10, 11, 12, 13 :: int]\<rparr>] (1 / 2) False None =
     Inr ([\<lparr>shape = [2], data = [10, 11]\<rparr>], [\<lparr>shape = [2], data = [12, 13]\<rparr>])
   \<and> split_data id [\<lparr>shape = [4], data = [10, 11, 12, 13 :: int]\<rparr>] (1 / 2) False (Some 2) =
     Inr ([\<lparr>shape = [0], data = []\<rparr>], [\<lparr>shape = [0], data = []\<rparr>])"
  by code_simp

section \<open>The confusion matrix\<close>

lemma count_zip_binary:
  assumes "length yt = length yp" and "set yp \<subseteq> {0, 1 :: int}"
  shows "count_list (zip yt yp) (t, 1) + count_list (zip yt yp) (t, 0) = count_list yt t"
  using assms by (induction yt yp rule: list_induct2) auto

lemma count_list_pos: "x \<in> set xs \<Longrightarrow> 0 < count_list xs x"
  by (simp add: count_list_0_iff zero_less_iff_neq_zero)

lemma count_zip_le: "count_list (zip yt yp) (t, p) \<le> count_list yt t"
proof (induction yt arbitrary: yp)
  case Nil
  show ?case by simp
next
  case (Cons y yt)
  show ?case
  proof (cases yp)
    case Nil
    then show ?thesis by simp
  next
    case (Cons q yp')
    then show ?thesis
      using Cons.IH [of yp'] by auto
  qed
qed

lemma count_zip_absent: "t \<notin> set yt \<Longrightarrow> count_list (zip yt yp) (t, p) = 0"
  using count_zip_le [of yt yp t p] by (simp add: count_list_0_iff)

lemma np_divide_number: "is_number (np_divide c s) \<longleftrightarrow> s \<noteq> 0"
  by (simp add: np_divide_def)

text \<open>The raw matrix with the labels in the order \<open>[1, 0]\<close>.\<close>

lemma confusion_matrix_rows:
  assumes "length yt = length yp" and "1 \<in> set yt \<or> 0 \<in> set yt"
  shows "confusion_matrix yt yp [1, 0] =
           Inr [[count_list (zip yt yp) (1, 1), count_list (zip yt yp) (1, 0)],
                [count_list (zip yt yp) (0, 1), count_list (zip yt yp) (0, 0)]]"
  using assms by (auto simp: confusion_matrix_def)

lemma confusion_mtx_binary:
  assumes "length (data y_true) = length (data y_pred)"
    and "set (data y_pred) \<subseteq> {0, 1}"
    and "1 \<in> set (data y_true)" and "0 \<in> set (data y_true)"
  shows "confusion_mtx y_true y_pred =
      Inr [[Finite (of_nat (count_list (zip (data y_true) (data y_pred)) (1, 1))
                     / of_nat (count_list (data y_true) 1)),
            Finite (of_nat (count_list (zip (data y_true) (data y_pred)) (1, 0))
                     / of_nat (count_list (data y_true) 1))],
           [Finite (of_nat (count_list (zip (data y_true) (data y_pred)) (0, 1))
                     / of_nat (count_list (data y_true) 0)),
            Finite (of_nat (count_list (zip (data y_true) (data y_pred)) (0, 0))
                     / of_nat (count_list (data y_true) 0))]]"
proof -
  let ?z = "zip (data y_true) (data y_pred)"
  have r1: "count_list ?z (1, 1) + count_list ?z (1, 0) = count_list (data y_true) 1"
    and r0: "count_list ?z (0, 1) + count_list ?z (0, 0) = count_list (data y_true) 0"
    using assms(1,2) by (simp_all add: count_zip_binary)
  have p1: "0 < count_list (data y_true) 1" and p0: "0 < count_list (data y_true) 0"
    using assms(3,4) by (simp_all add: count_list_pos)
  have "confusion_mtx y_true y_pred =
      Inr [[np_divide (count_list ?z (1, 1)) (count_list ?z (1, 1) + count_list ?z (1, 0)),
            np_divide (count_list ?z (1, 0)) (count_list ?z (1, 1) + count_list ?z (1, 0))],
           [np_divide (count_list ?z (0, 1)) (count_list ?z (0, 1) + count_list ?z (0, 0)),
            np_divide (count_list ?z (0, 0)) (count_list ?z (0, 1) + count_list ?z (0, 0))]]"
    using assms(1,3) by (simp add: confusion_mtx_def confusion_matrix_rows)
  then show ?thesis
    unfolding r1 r0 using p1 p0 by (simp add: np_divide_def)
qed

text \<open>The normalised matrix, row by row: a row of sum zero is \<open>[nan, nan]\<close>.\<close>

lemma confusion_mtx_rows:
  assumes "length (data y_true) = length (data y_pred)"
    and "1 \<in> set (data y_true) \<or> 0 \<in> set (data y_true)"
  shows "confusion_mtx y_true y_pred =
      Inr [if count_list (zip (data y_true) (data y_pred)) (1, 1)
               + count_list (zip (data y_true) (data y_pred)) (1, 0) = 0
           then [NaN, NaN]
           else [Finite (of_nat (count_list (zip (data y_true) (data y_pred)) (1, 1))
                   / of_nat (count_list (zip (data y_true) (data y_pred)) (1, 1)
                       + count_list (zip (data y_true) (data y_pred)) (1, 0))),
                 Finite (of_nat (count_list (zip (data y_true) (data y_pred)) (1, 0))
                   / of_nat (count_list (zip (data y_true) (data y_pred)) (1, 1)
                       + count_list (zip (data y_true) (data y_pred)) (1, 0)))],
           if count_list (zip (data y_true) (data y_pred)) (0, 1)
               + count_list (zip (data y_true) (data y_pred)) (0, 0) = 0
           then [NaN, NaN]
           else [Finite (of_nat (count_list (zip (data y_true) (data y_pred)) (0, 1))
                   / of_nat (count_list (zip (data y_true) (data y_pred)) (0, 1)
                       + count_list (zip (data y_true) (data y_pred)) (0, 0))),
                 Finite (of_nat (count_list (zip (data y_true) (data y_pred)) (0, 0))
                   / of_nat (count_list (zip (data y_true) (data y_pred)) (0, 1)
                       + count_list (zip (data y_true) (data y_pred)) (0, 0)))]]"
  using assms by (simp add: confusion_mtx_def confusion_matrix_rows np_divide_def)

text \<open>
  C7. For binary label arrays of equal size whose true labels contain a 1 and a 0,
  \<open>confusion_mtx\<close> returns the 2 by 2 matrix, over the flattened labels, whose rows and
  columns are in the order \<open>[1, 0]\<close>: row 0 holds the share of the samples with
  true label 1 that are predicted 1 and predicted 0, row 1 the same for the samples
  with true label 0. Each row sums to 1.
\<close>

theorem confusion_mtx_row_normalised:
  assumes "length (data y_true) = length (data y_pred)"
    and "set (data y_pred) \<subseteq> {0, 1}"
    and "1 \<in> set (data y_true)" and "0 \<in> set (data y_true)"
  shows "\<exists>a b c d.
           confusion_mtx y_true y_pred = Inr [[Finite a, Finite b], [Finite c, Finite d]]
         \<and> a + b = 1 \<and> c + d = 1
         \<and> a = of_nat (count_list (zip (data y_true) (data y_pred)) (1, 1))
                 / of_nat (count_list (data y_true) 1)
         \<and> b = of_nat (count_list (zip (data y_true) (data y_pred)) (1, 0))
                 / of_nat (count_list (data y_true) 1)
         \<and> c = of_nat (count_list (zip (data y_true) (data y_pred)) (0, 1))
                 / of_nat (count_list (data y_true) 0)
         \<and> d = of_nat (count_list (zip (data y_true) (data y_pred)) (0, 0))
                 / of_nat (count_list (data y_true) 0)"
proof -
  let ?z = "zip (data y_true) (data y_pred)"
  have r1: "count_list ?z (1, 1) + count_list ?z (1, 0) = count_list (data y_true) 1"
    and r0: "count_list ?z (0, 1) + count_list ?z (0, 0) = count_list (data y_true) 0"
    using assms(1,2) by (simp_all add: count_zip_binary)
  have p1: "0 < count_list (data y_true) 1" and p0: "0 < count_list (data y_true) 0"
    using assms(3,4) by (simp_all add: count_list_pos)
  have s1: "(of_nat (count_list ?z (1, 1)) :: rat) / of_nat (count_list (data y_true) 1)
      + of_nat (count_list ?z (1, 0)) / of_nat (count_list (data y_true) 1) = 1"
    using p1 by (simp add: r1 [symmetric] add_divide_distrib [symmetric] del: of_nat_add)
  have s0: "(of_nat (count_list ?z (0, 1)) :: rat) / of_nat (count_list (data y_true) 0)
      + of_nat (count_list ?z (0, 0)) / of_nat (count_list (data y_true) 0) = 1"
    using p0 by (simp add: r0 [symmetric] add_divide_distrib [symmetric] del: of_nat_add)
  from confusion_mtx_binary [OF assms] s1 s0 show ?thesis by blast
qed

text \<open>The example of the specification: true labels 1, 1, 0, 0 and predictions 1, 0, 0, 1.\<close>

theorem confusion_mtx_row_normalised_witness:
  "confusion_mtx \<lparr>shape = [4], data = [1, 1, 0, 0]\<rparr> \<lparr>shape = [4], data = [1, 0, 0, 1]\<rparr> =
     Inr [[Finite (1 / 2), Finite (1 / 2)], [Finite (1 / 2), Finite (1 / 2)]]
   \<and> (1 / 2 + 1 / 2 :: rat) = 1"
  using confusion_mtx_row_normalised
    [of "\<lparr>shape = [4], data = [1, 1, 0, 0]\<rparr>" "\<lparr>shape = [4], data = [1, 0, 0, 1]\<rparr>"]
  by auto

text \<open>
  C10, as amended. \<open>confusion_mtx\<close> divides the two counts of each row by the sum of
  the row, with no guard: for label arrays of equal size, a row whose sum is zero comes
  back as \<open>[nan, nan]\<close> and no exception is raised. The row of a label counts only
  the samples whose prediction is 1 or 0, so the entries are all numbers exactly when
  each of the labels 1 and 0 has a sample with such a prediction. Hence the entries
  are all numbers only if the true labels contain a 1 and a 0, and that precondition is
  enough when every prediction is 1 or 0.
\<close>

theorem confusion_mtx_division_unguarded:
  "(length (data y_true) = length (data y_pred)
      \<and> (1 \<in> set (data y_true) \<or> 0 \<in> set (data y_true))
     \<longrightarrow> confusion_mtx y_true y_pred =
      Inr [if count_list (zip (data y_true) (data y_pred)) (1, 1)
               + count_list (zip (data y_true) (data y_pred)) (1, 0) = 0
           then [NaN, NaN]
           else [Finite (of_nat (count_list (zip (data y_true) (data y_pred)) (1, 1))
                   / of_nat (count_list (zip (data y_true) (data y_pred)) (1, 1)
                       + count_list (zip (data y_true) (data y_pred)) (1, 0))),
                 Finite (of_nat (count_list (zip (data y_true) (data y_pred)) (1, 0))
                   / of_nat (count_list (zip (data y_true) (data y_pred)) (1, 1)
                       + count_list (zip (data y_true) (data y_pred)) (1, 0)))],
           if count_list (zip (data y_true) (data y_pred)) (0, 1)
               + count_list (zip (data y_true) (data y_pred)) (0, 0) = 0
           then [NaN, NaN]
           else [Finite (of_nat (count_list (zip (data y_true) (data y_pred)) (0, 1))
                   / of_nat (count_list (zip (data y_true) (data y_pred)) (0, 1)
                       + count_list (zip (data y_true) (data y_pred)) (0, 0))),
                 Finite (of_nat (count_list (zip (data y_true) (data y_pred)) (0, 0))
                   / of_nat (count_list (zip (data y_true) (data y_pred)) (0, 1)
                       + count_list (zip (data y_true) (data y_pred)) (0, 0)))]])
   \<and> (length (data y_true) = length (data y_pred)
     \<longrightarrow> ((\<exists>m. confusion_mtx y_true y_pred = Inr m \<and> all_numbers m) \<longleftrightarrow>
            count_list (zip (data y_true) (data y_pred)) (1, 1)
              + count_list (zip (data y_true) (data y_pred)) (1, 0) \<noteq> 0
          \<and> count_list (zip (data y_true) (data y_pred)) (0, 1)
              + count_list (zip (data y_true) (data y_pred)) (0, 0) \<noteq> 0))
   \<and> (\<forall>m. confusion_mtx y_true y_pred = Inr m \<and> all_numbers m
     \<longrightarrow> 1 \<in> set (data y_true) \<and> 0 \<in> set (data y_true))
   \<and> (length (data y_true) = length (data y_pred) \<and> set (data y_pred) \<subseteq> {0, 1}
      \<and> 1 \<in> set (data y_true) \<and> 0 \<in> set (data y_true)
     \<longrightarrow> (\<exists>m. confusion_mtx y_true y_pred = Inr m \<and> all_numbers m))"
proof -
  let ?z = "zip (data y_true) (data y_pred)"
  let ?s1 = "count_list ?z (1, 1) + count_list ?z (1, 0)"
  let ?s0 = "count_list ?z (0, 1) + count_list ?z (0, 0)"
  let ?some = "1 \<in> set (data y_true) \<or> 0 \<in> set (data y_true)"
  have none: "?s1 = 0 \<and> ?s0 = 0" if "\<not> ?some"
    using that by (simp add: count_zip_absent)
  have err: "\<forall>m. confusion_mtx y_true y_pred \<noteq> Inr m" if "\<not> ?some"
    using that by (auto simp: confusion_mtx_def confusion_matrix_def split: sum.splits)
  have exact: "(\<exists>m. confusion_mtx y_true y_pred = Inr m \<and> all_numbers m) \<longleftrightarrow>
      ?s1 \<noteq> 0 \<and> ?s0 \<noteq> 0"
    if len: "length (data y_true) = length (data y_pred)"
  proof (cases ?some)
    case True
    show ?thesis
      unfolding confusion_mtx_rows [OF len True] by (simp add: all_numbers_def)
  next
    case False
    with none err show ?thesis by simp
  qed
  have nec: "1 \<in> set (data y_true) \<and> 0 \<in> set (data y_true)"
    if m: "confusion_mtx y_true y_pred = Inr m \<and> all_numbers m" for m
  proof -
    from m obtain cm where "confusion_matrix (data y_true) (data y_pred) [1, 0] = Inr cm"
      by (auto simp: confusion_mtx_def split: sum.splits)
    then have len: "length (data y_true) = length (data y_pred)"
      by (auto simp: confusion_matrix_def split: if_splits)
    from m have "\<exists>m. confusion_mtx y_true y_pred = Inr m \<and> all_numbers m" by (rule exI)
    with exact [OF len] have "?s1 \<noteq> 0 \<and> ?s0 \<noteq> 0" by (rule iffD1)
    then have nz: "?s1 \<noteq> 0" "?s0 \<noteq> 0" by simp_all
    show ?thesis
      using nz count_zip_absent [of 1 "data y_true" "data y_pred"]
        count_zip_absent [of 0 "data y_true" "data y_pred"] by fastforce
  qed
  have suf: "\<exists>m. confusion_mtx y_true y_pred = Inr m \<and> all_numbers m"
    if "length (data y_true) = length (data y_pred) \<and> set (data y_pred) \<subseteq> {0, 1}
      \<and> 1 \<in> set (data y_true) \<and> 0 \<in> set (data y_true)"
    using that confusion_mtx_binary [of y_true y_pred] by (simp add: all_numbers_def)
  show ?thesis
    using confusion_mtx_rows [of y_true y_pred] exact nec suf by blast
qed

text \<open>
  Both classes present; the label 0 missing from the true labels; and a sample of
  label 1 whose prediction is 2.
\<close>

theorem confusion_mtx_division_unguarded_witness:
  "confusion_mtx \<lparr>shape = [4], data = [1, 1, 0, 0]\<rparr> \<lparr>shape = [4], data = [1, 0, 0, 1]\<rparr> =
       Inr [[Finite (1 / 2), Finite (1 / 2)], [Finite (1 / 2), Finite (1 / 2)]]
   \<and> all_numbers [[Finite (1 / 2), Finite (1 / 2)], [Finite (1 / 2), Finite (1 / 2)]]
   \<and> confusion_mtx \<lparr>shape = [3], data = [1, 1, 1]\<rparr> \<lparr>shape = [3], data = [1, 0, 0]\<rparr> =
       Inr [[Finite (1 / 3), Finite (2 / 3)], [NaN, NaN]]
   \<and> confusion_mtx \<lparr>shape = [3], data = [1, 0, 0]\<rparr> \<lparr>shape = [3], data = [2, 0, 1]\<rparr> =
       Inr [[NaN, NaN], [Finite (1 / 2), Finite (1 / 2)]]"
  using confusion_mtx_division_unguarded
      [of "\<lparr>shape = [4], data = [1, 1, 0, 0]\<rparr>" "\<lparr>shape = [4], data = [1, 0, 0, 1]\<rparr>"]
    confusion_mtx_division_unguarded
      [of "\<lparr>shape = [3], data = [1, 1, 1]\<rparr>" "\<lparr>shape = [3], data = [1, 0, 0]\<rparr>"]
    confusion_mtx_division_unguarded
      [of "\<lparr>shape = [3], data = [1, 0, 0]\<rparr>" "\<lparr>shape = [3], data = [2, 0, 1]\<rparr>"]
  by (simp add: all_numbers_def)

text \<open>
  C10, as stated, fails on the sufficiency of its precondition: the true labels 1, 0
  contain both classes, and with the predictions 2, 0 the only sample of label 1 is
  not counted, so the row of label 1 is \<open>0/0\<close>.
\<close>

theorem confusion_mtx_precondition_counterexample:
  "1 \<in> set (data \<lparr>shape = [2], data = [1, 0 :: int]\<rparr>)
   \<and> 0 \<in> set (data \<lparr>shape = [2], data = [1, 0 :: int]\<rparr>)
   \<and> confusion_mtx \<lparr>shape = [2], data = [1, 0]\<rparr> \<lparr>shape = [2], data = [2, 0]\<rparr> =
       Inr [[NaN, NaN], [Finite 0, Finite 1]]
   \<and> \<not> all_numbers [[NaN, NaN], [Finite 0, Finite 1]]"
  by (simp add: confusion_mtx_def confusion_matrix_def np_divide_def all_numbers_def)

section \<open>Interval boundaries\<close>








section \<open>Requests and retries\<close>

lemma retry_get_step_fail:
  assumes "tries < MAX_TRIES" and "net (requests w) rq = None"
  shows "retry_get net rq tries w =
           retry_get net rq (Suc tries)
             (w\<lparr>requests := Suc (requests w), slept := slept w + SLEEP_TIME\<rparr>)"
  using assms by (subst retry_get.simps) simp

lemma retry_get_step_ok:
  assumes "tries < MAX_TRIES" and "net (requests w) rq = Some resp"
  shows "retry_get net rq tries w = (tries, Some resp, w\<lparr>requests := Suc (requests w)\<rparr>)"
  using assms by (subst retry_get.simps) simp

lemma retry_get_step_stop:
  assumes "\<not> tries < MAX_TRIES"
  shows "retry_get net rq tries w = (tries, None, w)"
  using assms by (subst retry_get.simps) simp


declare retry_get.simps [simp del]

lemma retry_get_fails:
  assumes "\<forall>j < k. net (requests w + j) rq = None" and "tries + k \<le> MAX_TRIES"
  shows "retry_get net rq tries w =
           retry_get net rq (tries + k)
             (w\<lparr>requests := requests w + k, slept := slept w + k * SLEEP_TIME\<rparr>)"
  using assms
proof (induction k arbitrary: tries w)
  case 0
  show ?case by simp
next
  case (Suc k)
  let ?w1 = "w\<lparr>requests := Suc (requests w), slept := slept w + SLEEP_TIME\<rparr>"
  from Suc.prems have "net (requests w) rq = None" and "tries < MAX_TRIES"
    by auto
  then have "retry_get net rq tries w = retry_get net rq (Suc tries) ?w1"
    by (simp add: retry_get_step_fail)
  also have "\<dots> = retry_get net rq (Suc tries + k)
      (?w1\<lparr>requests := requests ?w1 + k, slept := slept ?w1 + k * SLEEP_TIME\<rparr>)"
  proof (rule Suc.IH)
    show "\<forall>j < k. net (requests ?w1 + j) rq = None"
    proof (intro allI impI)
      fix j assume "j < k"
      then have "net (requests w + Suc j) rq = None"
        using Suc.prems(1) by (meson Suc_less_eq)
      then show "net (requests ?w1 + j) rq = None"
        by simp
    qed
    show "Suc tries + k \<le> MAX_TRIES"
      using Suc.prems(2) by simp
  qed
  also have "?w1\<lparr>requests := requests ?w1 + k, slept := slept ?w1 + k * SLEEP_TIME\<rparr> =
      w\<lparr>requests := requests w + Suc k, slept := slept w + Suc k * SLEEP_TIME\<rparr>"
    by simp
  finally show ?case by simp
qed

lemma retry_get_exhausted:
  assumes "\<forall>j < MAX_TRIES. net (requests w + j) rq = None"
  shows "retry_get net rq 0 w =
           (MAX_TRIES, None,
            w\<lparr>requests := requests w + MAX_TRIES, slept := slept w + MAX_TRIES * SLEEP_TIME\<rparr>)"
proof -
  have "retry_get net rq 0 w =
      retry_get net rq (0 + MAX_TRIES)
        (w\<lparr>requests := requests w + MAX_TRIES, slept := slept w + MAX_TRIES * SLEEP_TIME\<rparr>)"
    using assms by (intro retry_get_fails) simp_all
  then show ?thesis
    by (simp add: retry_get_step_stop)
qed

lemma retry_get_succeeds:
  assumes "\<forall>j < k. net (requests w + j) rq = None" and "net (requests w + k) rq = Some resp"
    and "k < MAX_TRIES"
  shows "retry_get net rq 0 w =
           (k, Some resp,
            w\<lparr>requests := requests w + k + 1, slept := slept w + k * SLEEP_TIME\<rparr>)"
proof -
  let ?w = "w\<lparr>requests := requests w + k, slept := slept w + k * SLEEP_TIME\<rparr>"
  have "retry_get net rq 0 w = retry_get net rq (0 + k) ?w"
    using assms(1,3) by (intro retry_get_fails) simp_all
  also have "\<dots> = (k, Some resp, ?w\<lparr>requests := Suc (requests ?w)\<rparr>)"
    using assms(2,3) by (simp add: retry_get_step_ok)
  finally show ?thesis by simp
qed

lemma retry_get_bound:
  "tries \<le> MAX_TRIES \<Longrightarrow>
     requests (snd (snd (retry_get net rq tries w))) + tries \<le> requests w + MAX_TRIES"
proof (induction net rq tries w rule: retry_get.induct)
  case (1 net rq tries w)
  show ?case
  proof (cases "tries < MAX_TRIES")
    case False
    with "1.prems" show ?thesis by (simp add: retry_get_step_stop)
  next
    case True
    show ?thesis
    proof (cases "net (requests w) rq")
      case (Some resp)
      with True show ?thesis by (simp add: retry_get_step_ok)
    next
      case None
      have "requests (snd (snd (retry_get net rq (tries + 1)
          (w\<lparr>requests := requests w + 1, slept := slept w + SLEEP_TIME\<rparr>)))) + (tries + 1)
          \<le> requests w + 1 + MAX_TRIES"
        using "1.IH" [OF True None] True by simp
      with True None show ?thesis
        by (simp add: retry_get_step_fail)
    qed
  qed
qed


text \<open>
  C4, as amended. \<open>getDataForStation\<close> calls \<open>requests.get\<close> at most 5 times and sleeps
  5 seconds after every failed call. When the first four calls fail and the fifth
  returns a response that parses, the parsed table is returned after 20 seconds of
  sleep and nothing is printed. When all five calls fail, the function sleeps 25
  seconds in all, prints one line and returns \<open>None\<close>: no exception is raised and no
  value other than \<open>None\<close> describes the failure.
\<close>

theorem getDataForStation_retries:
  "requests (snd (getDataForStation net l params station w)) \<le> requests w + 5
   \<and> ((\<forall>j < 4. net (requests w + j) (GET_DATA params station) = None)
       \<and> net (requests w + 4) (GET_DATA params station) = Some resp
       \<and> read_csv l resp = Inr df
      \<longrightarrow> getDataForStation net l params station w =
            (Inr (Some df), w\<lparr>requests := requests w + 5, slept := slept w + 20\<rparr>))
   \<and> ((\<forall>j < 5. net (requests w + j) (GET_DATA params station) = None)
      \<longrightarrow> getDataForStation net l params station w =
            (Inr None,
             w\<lparr>requests := requests w + 5, slept := slept w + 25,
               printed := printed w @ [CouldntGetData station]\<rparr>))"
proof (intro conjI impI)
  have "requests (snd (snd (retry_get net (GET_DATA params station) 0 w))) \<le> requests w + 5"
    using retry_get_bound [of 0 net "GET_DATA params station" w] by (simp add: MAX_TRIES_def)
  then show "requests (snd (getDataForStation net l params station w)) \<le> requests w + 5"
    by (auto simp: getDataForStation_def split: prod.splits option.splits sum.splits)
next
  assume a: "(\<forall>j < 4. net (requests w + j) (GET_DATA params station) = None)
       \<and> net (requests w + 4) (GET_DATA params station) = Some resp
       \<and> read_csv l resp = Inr df"
  then have "retry_get net (GET_DATA params station) 0 w =
      (4, Some resp, w\<lparr>requests := requests w + 4 + 1, slept := slept w + 4 * SLEEP_TIME\<rparr>)"
    by (intro retry_get_succeeds) (simp_all add: MAX_TRIES_def)
  with a show "getDataForStation net l params station w =
            (Inr (Some df), w\<lparr>requests := requests w + 5, slept := slept w + 20\<rparr>)"
    by (simp add: getDataForStation_def MAX_TRIES_def SLEEP_TIME_def)
next
  assume "\<forall>j < 5. net (requests w + j) (GET_DATA params station) = None"
  then have "retry_get net (GET_DATA params station) 0 w =
           (MAX_TRIES, None,
            w\<lparr>requests := requests w + MAX_TRIES, slept := slept w + MAX_TRIES * SLEEP_TIME\<rparr>)"
    by (intro retry_get_exhausted) (simp add: MAX_TRIES_def)
  then show "getDataForStation net l params station w =
            (Inr None,
             w\<lparr>requests := requests w + 5, slept := slept w + 25,
               printed := printed w @ [CouldntGetData station]\<rparr>)"
    by (simp add: getDataForStation_def MAX_TRIES_def SLEEP_TIME_def)
qed

theorem getDataForStation_retries_witness:
  "getDataForStation (\<lambda>k rq. if k < 4 then None else Some ''csv'')
     \<lparr>read_csv = Inr, json_stations = (\<lambda>r. Inr [r]), ds_new = [],
      ds_setitem = (\<lambda>d s v. Inr ((s, v) # d))\<rparr>
     () ''ABK'' \<lparr>requests = 0, slept = 0, printed = []\<rparr> =
     (Inr (Some ''csv''), \<lparr>requests = 5, slept = 20, printed = []\<rparr>)
   \<and> getDataForStation (\<lambda>k rq. None :: string option)
     \<lparr>read_csv = Inr, json_stations = (\<lambda>r. Inr [r]), ds_new = [],
      ds_setitem = (\<lambda>d s v. Inr ((s, v) # d))\<rparr>
     () ''ABK'' \<lparr>requests = 0, slept = 0, printed = []\<rparr> =
     (Inr None, \<lparr>requests = 5, slept = 25, printed = [CouldntGetData ''ABK'']\<rparr>)"
  using getDataForStation_retries
      [of "\<lambda>k rq. if k < 4 then None else Some ''csv''"
          "\<lparr>read_csv = Inr, json_stations = (\<lambda>r. Inr [r]), ds_new = [],
            ds_setitem = (\<lambda>d s v. Inr ((s, v) # d))\<rparr>"
          "()" "''ABK''" "\<lparr>requests = 0, slept = 0, printed = []\<rparr>" "''csv''" "''csv''"]
    getDataForStation_retries
      [of "\<lambda>k rq. None :: string option"
          "\<lparr>read_csv = Inr, json_stations = (\<lambda>r. Inr [r]), ds_new = [],
            ds_setitem = (\<lambda>d s v. Inr ((s, v) # d))\<rparr>"
          "()" "''ABK''" "\<lparr>requests = 0, slept = 0, printed = []\<rparr>"]
  by simp

text \<open>
  C4, as stated, fails on its last part: after five failed calls the result is the
  returned value \<open>None\<close>, which is not a failure value (\<open>Inl\<close>) of any type.
\<close>

theorem getDataForStation_null_counterexample:
  "getDataForStation (\<lambda>k rq. None :: string option)
     \<lparr>read_csv = Inr, json_stations = (\<lambda>r. Inr [r]), ds_new = [],
      ds_setitem = (\<lambda>d s v. Inr ((s, v) # d))\<rparr>
     () ''ABK'' \<lparr>requests = 0, slept = 0, printed = []\<rparr> =
     (Inr None, \<lparr>requests = 5, slept = 25, printed = [CouldntGetData ''ABK'']\<rparr>)
   \<and> \<not> isl (fst (getDataForStation (\<lambda>k rq. None :: string option)
     \<lparr>read_csv = Inr, json_stations = (\<lambda>r. Inr [r]), ds_new = [],
      ds_setitem = (\<lambda>d s v. Inr ((s, v) # d))\<rparr>
     () ''ABK'' \<lparr>requests = 0, slept = 0, printed = []\<rparr>))"
  by code_simp

text \<open>A network on which every request fails.\<close>

lemma retry_get_dead_network:
  "retry_get (\<lambda>k rq. None) rq 0 w =
     (5, None, w\<lparr>requests := requests w + 5, slept := slept w + 25\<rparr>)"
  using retry_get_exhausted [of "\<lambda>k rq. None" w rq] by (simp add: MAX_TRIES_def SLEEP_TIME_def)

text \<open>
  C5. The code when every inventory request of an interval fails: after 5 tries
  \<open>getDataForInterval\<close> raises. Under Python 3 the exception is the UnboundLocalError
  of \<open>print(e)\<close> in \<open>getAvailableStations\<close>; under Python 2 \<open>getAvailableStations\<close>
  returns \<open>None\<close> and \<open>len(station_list)\<close> raises TypeError. No dataset is returned
  for the interval.
\<close>

theorem getDataForInterval_raises:
  "getDataForInterval Python3 (\<lambda>k rq. None) l params w =
     (Inl UnboundLocalError,
      w\<lparr>requests := requests w + 5, slept := slept w + 25,
        printed := printed w @ [CouldntGetStations]\<rparr>)
   \<and> getDataForInterval Python2 (\<lambda>k rq. None) l params w =
     (Inl TypeError,
      w\<lparr>requests := requests w + 5, slept := slept w + 25,
        printed := printed w @ [CouldntGetStations, ExceptionText]\<rparr>)"
  by (simp add: getDataForInterval_def getAvailableStations_def retry_get_dead_network
      MAX_TRIES_def)

section \<open>What the array functions write\<close>

lemma extends_refl: "extends h h"
  by (simp add: extends_def)

lemma extends_trans: "extends h1 h2 \<Longrightarrow> extends h2 h3 \<Longrightarrow> extends h1 h3"
  by (auto simp: extends_def)

lemma np_arange_extends: "extends h (snd (np_arange n h))"
  by (simp add: np_arange_def extends_def)

lemma np_random_shuffle_fresh:
  "extends h (np_random_shuffle shuffle (fst (np_arange n h)) (snd (np_arange n h)))"
  by (simp add: np_arange_def np_random_shuffle_def extends_def Let_def)

lemma take_rows_mem_extends: "extends h (snd (take_rows_mem d idx h))"
  by (simp add: take_rows_mem_def extends_def split: list.splits)

lemma split_rows_mem_extends: "extends h (snd (split_rows_mem idx k ds h))"
proof (induction ds arbitrary: h)
  case Nil
  show ?case by (simp add: extends_refl)
next
  case (Cons d ds)
  show ?case
  proof (cases "view_to idx k")
    case (Inl e)
    then show ?thesis by (simp add: extends_refl)
  next
    case ia: (Inr idx_a)
    obtain ra h1 where t1: "take_rows_mem d idx_a h = (ra, h1)"
      by (cases "take_rows_mem d idx_a h")
    then have e1: "extends h h1"
      using take_rows_mem_extends [of h d idx_a] by simp
    show ?thesis
    proof (cases ra)
      case (Inl e)
      with ia t1 e1 show ?thesis by simp
    next
      case a: (Inr a)
      show ?thesis
      proof (cases "view_from idx k")
        case (Inl e)
        with ia t1 a e1 show ?thesis by simp
      next
        case ib: (Inr idx_b)
        obtain rb h2 where t2: "take_rows_mem d idx_b h1 = (rb, h2)"
          by (cases "take_rows_mem d idx_b h1")
        then have e2: "extends h h2"
          using take_rows_mem_extends [of h1 d idx_b] e1 by (auto intro: extends_trans)
        show ?thesis
        proof (cases rb)
          case (Inl e)
          with ia t1 a ib t2 e2 show ?thesis by simp
        next
          case b: (Inr b)
          have "extends h (snd (split_rows_mem idx k ds h2))"
            using e2 Cons.IH [of h2] by (rule extends_trans)
          with ia t1 a ib t2 b show ?thesis
            by (auto split: prod.splits sum.splits)
        qed
      qed
    qed
  qed
qed

lemma split_data_mem_unfold:
  assumes "list_of_data = d0 # ds" and "first_dim_view d0 = Inr n"
    and "split_rows_mem (fst (np_arange n h)) (py_int ((1 - split) * of_nat n)) list_of_data
           (if rand then np_random_shuffle shuffle (fst (np_arange n h)) (snd (np_arange n h))
            else snd (np_arange n h)) = (r, h3)"
  shows "split_data_mem shuffle list_of_data split rand batch_size h =
           (case r of
              Inl e \<Rightarrow> (Inl e, h3)
            | Inr (split_a, split_b) \<Rightarrow> (trim_batch_views batch_size split_a split_b, h3))"
proof -
  have "split_data_mem shuffle list_of_data split rand batch_size h =
      (case split_rows_mem (fst (np_arange n h)) (py_int ((1 - split) * of_nat n)) list_of_data
           (if rand then np_random_shuffle shuffle (fst (np_arange n h)) (snd (np_arange n h))
            else snd (np_arange n h)) of
         (Inl e, h3) \<Rightarrow> (Inl e, h3)
       | (Inr (split_a, split_b), h3) \<Rightarrow> (trim_batch_views batch_size split_a split_b, h3))"
    unfolding split_data_mem_def assms(1)
    by (simp add: assms(2) Let_def case_prod_beta del: split_rows_mem.simps)
  then show ?thesis
    unfolding assms(3) by (simp split: sum.splits)
qed

lemma split_data_mem_extends:
  "extends h (snd (split_data_mem shuffle list_of_data split rand batch_size h))"
proof (cases list_of_data)
  case Nil
  then show ?thesis by (simp add: split_data_mem_def extends_refl)
next
  case (Cons d0 ds)
  show ?thesis
  proof (cases "first_dim_view d0")
    case (Inl e)
    with Cons show ?thesis by (simp add: split_data_mem_def extends_refl)
  next
    case (Inr n)
    define h2 where "h2 = (if rand
      then np_random_shuffle shuffle (fst (np_arange n h)) (snd (np_arange n h))
      else snd (np_arange n h))"
    obtain r h3 where sr: "split_rows_mem (fst (np_arange n h))
        (py_int ((1 - split) * of_nat n)) list_of_data h2 = (r, h3)"
      by (cases "split_rows_mem (fst (np_arange n h))
        (py_int ((1 - split) * of_nat n)) list_of_data h2")
    have e2: "extends h h2"
      unfolding h2_def by (simp add: np_random_shuffle_fresh np_arange_extends)
    have "extends h2 h3"
      using split_rows_mem_extends [of h2 "fst (np_arange n h)"
          "py_int ((1 - split) * of_nat n)" list_of_data] sr by simp
    with e2 have e3: "extends h h3" by (rule extends_trans)
    have "snd (split_data_mem shuffle list_of_data split rand batch_size h) = h3"
      using split_data_mem_unfold [OF Cons Inr sr [unfolded h2_def]]
      by (simp split: sum.splits prod.splits)
    with e3 show ?thesis by simp
  qed
qed

lemma rnn_format_x_mem_heap: "snd (rnn_format_x_mem xs h) = h"
  by (induction xs) (auto split: sum.splits prod.splits)

lemma linear_format_x_mem_heap: "snd (linear_format_x_mem xs h) = h"
  by (induction xs) (auto split: sum.splits prod.splits)

lemma buf_at_prefix: "prefix bufs bufs' \<Longrightarrow> a < length bufs \<Longrightarrow> buf_at bufs' a = buf_at bufs a"
  by (auto simp: buf_at_def prefix_def nth_append)

lemma view_vals_extends:
  "extends h h' \<Longrightarrow> base v < length (vals h) \<Longrightarrow> view_vals h' v = view_vals h v"
  using buf_at_prefix [of "vals h" "vals h'" "base v"] by (simp add: view_vals_def extends_def)


lemma extends_length: "extends h h' \<Longrightarrow> length (vals h) \<le> length (vals h')"
  by (simp add: extends_def prefix_length_le)

lemma take_rows_mem_base:
  "take_rows_mem d idx h = (Inr v, h') \<Longrightarrow> base v = length (vals h)"
  by (auto simp: take_rows_mem_def split: list.splits if_splits)

lemma split_rows_mem_fresh:
  "split_rows_mem idx k ds h = (Inr (split_a, split_b), h') \<Longrightarrow>
     \<forall>v \<in> set split_a \<union> set split_b. length (vals h) \<le> base v"
proof (induction ds arbitrary: h split_a split_b)
  case Nil
  then show ?case by simp
next
  case (Cons d ds)
  from Cons.prems obtain idx_a a h1 idx_b b h2 as bs where
    ia: "view_to idx k = Inr idx_a" and t1: "take_rows_mem d idx_a h = (Inr a, h1)"
    and ib: "view_from idx k = Inr idx_b" and t2: "take_rows_mem d idx_b h1 = (Inr b, h2)"
    and rec: "split_rows_mem idx k ds h2 = (Inr (as, bs), h')"
    and res: "split_a = a # as" "split_b = b # bs"
    by (auto split: sum.splits prod.splits)
  have l1: "length (vals h) \<le> length (vals h1)"
    using take_rows_mem_extends [of h d idx_a] t1 by (simp add: extends_length)
  have l2: "length (vals h1) \<le> length (vals h2)"
    using take_rows_mem_extends [of h1 d idx_b] t2 by (simp add: extends_length)
  have "base a = length (vals h)" "base b = length (vals h1)"
    using t1 t2 by (simp_all add: take_rows_mem_base)
  moreover have "\<forall>v \<in> set as \<union> set bs. length (vals h2) \<le> base v"
    using rec by (rule Cons.IH)
  then have "\<forall>v \<in> set as \<union> set bs. length (vals h) \<le> base v"
    using l1 l2 by (meson order_trans)
  ultimately show ?case
    using l1 res by auto
qed

lemma view_to_base: "view_to v k = Inr v' \<Longrightarrow> base v' = base v"
  by (auto simp: view_to_def split: list.splits)

lemma trim_views_base:
  "trim_views ra rb split_a split_b = Inr (as, bs) \<Longrightarrow>
     map base as = map base split_a \<and> (split_a \<noteq> [] \<longrightarrow> map base bs = map base split_b)
     \<and> (split_a = [] \<longrightarrow> bs = split_b)"
proof (induction ra rb split_a split_b arbitrary: as bs rule: trim_views.induct)
  case (1 ra rb split_b)
  then show ?case by simp
next
  case (2 ra rb a split_a)
  then show ?case by simp
next
  case (3 ra rb a split_a b split_b)
  from "3.prems" obtain a' b' as' bs' where
    va: "view_to a (- ra) = Inr a'" and vb: "view_to b (- rb) = Inr b'"
    and rec: "trim_views ra rb split_a split_b = Inr (as', bs')"
    and res: "as = a' # as'" "bs = b' # bs'"
    by (auto split: sum.splits prod.splits)
  have ih: "map base as' = map base split_a
      \<and> (split_a \<noteq> [] \<longrightarrow> map base bs' = map base split_b)
      \<and> (split_a = [] \<longrightarrow> bs' = split_b)"
    using "3.IH" [OF va vb rec] .
  then have "map base bs' = map base split_b"
    by (cases "split_a = []") simp_all
  with ih va vb res show ?case
    by (simp add: view_to_base)
qed

lemma trim_views_fresh:
  assumes "trim_views ra rb split_a split_b = Inr (as, bs)"
    and "\<forall>v \<in> set split_a \<union> set split_b. m \<le> base v"
  shows "\<forall>v \<in> set as \<union> set bs. m \<le> base v"
proof -
  from trim_views_base [OF assms(1)]
  have "set (map base as) = set (map base split_a)"
    and "set (map base bs) = set (map base split_b)"
    by (cases "split_a = []"; simp)+
  then have "base ` (set as \<union> set bs) = base ` (set split_a \<union> set split_b)"
    by (simp add: image_Un)
  with assms(2) show ?thesis
    by (metis (no_types, lifting) image_iff)
qed

lemma trim_batch_views_fresh:
  assumes "trim_batch_views batch_size split_a split_b = Inr (as, bs)"
    and "\<forall>v \<in> set split_a \<union> set split_b. m \<le> base v"
  shows "\<forall>v \<in> set as \<union> set bs. m \<le> base v"
proof (cases "batch_size = None \<or> batch_size = Some 0")
  case True
  with assms show ?thesis by (auto simp: trim_batch_views_def)
next
  case False
  then obtain bsz where bs: "batch_size = Some bsz" "bsz \<noteq> 0" by auto
  show ?thesis
  proof (cases split_a)
    case Nil
    with assms bs show ?thesis by (auto simp: trim_batch_views_def)
  next
    case (Cons a0 as')
    with assms(1) bs obtain ra rb where
      "trim_views ra rb split_a split_b = Inr (as, bs)"
      by (auto simp: trim_batch_views_def split: list.splits sum.splits)
    then show ?thesis using assms(2) by (rule trim_views_fresh)
  qed
qed

lemma split_data_mem_fresh:
  assumes "split_data_mem shuffle list_of_data split rand batch_size h = (Inr (as, bs), h')"
  shows "\<forall>v \<in> set as \<union> set bs. length (vals h) \<le> base v"
proof -
  from assms obtain d0 ds where lod: "list_of_data = d0 # ds"
    by (cases list_of_data) (auto simp: split_data_mem_def)
  from assms lod obtain n where n: "first_dim_view d0 = Inr n"
    by (cases "first_dim_view d0") (auto simp: split_data_mem_def)
  define h2 where "h2 = (if rand
    then np_random_shuffle shuffle (fst (np_arange n h)) (snd (np_arange n h))
    else snd (np_arange n h))"
  obtain r h3 where sr: "split_rows_mem (fst (np_arange n h))
      (py_int ((1 - split) * of_nat n)) list_of_data h2 = (r, h3)"
    by (cases "split_rows_mem (fst (np_arange n h))
      (py_int ((1 - split) * of_nat n)) list_of_data h2")
  have e2: "extends h h2"
    unfolding h2_def by (simp add: np_random_shuffle_fresh np_arange_extends)
  note sd = split_data_mem_unfold [OF lod n sr [unfolded h2_def], of batch_size]
  from assms sd obtain split_a split_b where r: "r = Inr (split_a, split_b)"
    and tb: "trim_batch_views batch_size split_a split_b = Inr (as, bs)"
    by (cases r) auto
  have "\<forall>v \<in> set split_a \<union> set split_b. length (vals h2) \<le> base v"
    using split_rows_mem_fresh [OF sr [unfolded r]] .
  then have "\<forall>v \<in> set split_a \<union> set split_b. length (vals h) \<le> base v"
    using extends_length [OF e2] by (meson order_trans)
  with tb show ?thesis by (rule trim_batch_views_fresh)
qed

lemma reshape_view_base:
  "reshape_view v s = Inr r \<Longrightarrow> base r = base v \<and> offset r = offset v"
  by (auto simp: reshape_view_def split: if_splits)

lemma rnn_format_x_mem_views:
  "rnn_format_x_mem xs h = (Inr rs, h') \<Longrightarrow>
     map base rs = map base xs \<and> map offset rs = map offset xs"
proof (induction xs arbitrary: rs)
  case Nil
  then show ?case by simp
next
  case (Cons x xs)
  then show ?case
    by (auto split: sum.splits prod.splits dest: reshape_view_base)
qed

lemma linear_format_x_mem_views:
  "linear_format_x_mem xs h = (Inr rs, h') \<Longrightarrow>
     map base rs = map base xs \<and> map offset rs = map offset xs"
proof (induction xs arbitrary: rs)
  case Nil
  then show ?case by simp
next
  case (Cons x xs)
  then show ?case
    by (auto split: sum.splits prod.splits dest: reshape_view_base)
qed


lemma array_of_extends:
  "extends h h' \<Longrightarrow> base v < length (vals h) \<Longrightarrow> array_of h' v = array_of h v"
  by (simp add: array_of_def view_vals_extends)

text \<open>
  C9. Whatever the arguments, \<open>split_data\<close> leaves every buffer that existed before
  the call at its address with its contents: it only adds buffers, and the shuffle
  writes the index buffer that the call itself has allocated. \<open>rnn_format_x\<close> and
  \<open>linear_format_x\<close> leave memory as it is. So every input array has after the call
  the contents it had before. The arrays that \<open>split_data\<close> returns lie in buffers
  allocated by the call (copies), and the arrays that the two reshaping functions
  return are views of the buffers of their inputs.
\<close>

theorem inputs_not_mutated:
  "extends h (snd (split_data_mem shuffle list_of_data split rand batch_size h))
   \<and> snd (rnn_format_x_mem xs h) = h
   \<and> snd (linear_format_x_mem xs h) = h
   \<and> (\<forall>d \<in> set list_of_data. base d < length (vals h) \<longrightarrow>
         array_of (snd (split_data_mem shuffle list_of_data split rand batch_size h)) d =
           array_of h d)
   \<and> (\<forall>as bs. fst (split_data_mem shuffle list_of_data split rand batch_size h) = Inr (as, bs)
         \<longrightarrow> (\<forall>v \<in> set as \<union> set bs. length (vals h) \<le> base v))
   \<and> (\<forall>rs. fst (rnn_format_x_mem xs h) = Inr rs
         \<longrightarrow> map base rs = map base xs \<and> map offset rs = map offset xs)
   \<and> (\<forall>rs. fst (linear_format_x_mem xs h) = Inr rs
         \<longrightarrow> map base rs = map base xs \<and> map offset rs = map offset xs)"
proof (intro conjI allI impI ballI)
  show "extends h (snd (split_data_mem shuffle list_of_data split rand batch_size h))"
    by (rule split_data_mem_extends)
  show "snd (rnn_format_x_mem xs h) = h"
    by (rule rnn_format_x_mem_heap)
  show "snd (linear_format_x_mem xs h) = h"
    by (rule linear_format_x_mem_heap)
next
  fix d :: view assume "base d < length (vals h)"
  then show "array_of (snd (split_data_mem shuffle list_of_data split rand batch_size h)) d =
      array_of h d"
    using split_data_mem_extends by (rule array_of_extends [rotated])
next
  fix as bs v
  assume "fst (split_data_mem shuffle list_of_data split rand batch_size h) = Inr (as, bs)"
    and v: "v \<in> set as \<union> set bs"
  then have "split_data_mem shuffle list_of_data split rand batch_size h =
      (Inr (as, bs), snd (split_data_mem shuffle list_of_data split rand batch_size h))"
    by (metis prod.collapse)
  from split_data_mem_fresh [OF this] v show "length (vals h) \<le> base v"
    by blast
next
  fix rs assume "fst (rnn_format_x_mem xs h) = Inr rs"
  then have "rnn_format_x_mem xs h = (Inr rs, snd (rnn_format_x_mem xs h))"
    by (metis prod.collapse)
  from rnn_format_x_mem_views [OF this]
  show "map base rs = map base xs" and "map offset rs = map offset xs"
    by simp_all
next
  fix rs assume "fst (linear_format_x_mem xs h) = Inr rs"
  then have "linear_format_x_mem xs h = (Inr rs, snd (linear_format_x_mem xs h))"
    by (metis prod.collapse)
  from linear_format_x_mem_views [OF this]
  show "map base rs = map base xs" and "map offset rs = map offset xs"
    by simp_all
qed

text \<open>A feature array and a label array of four rows, shuffled, split and trimmed.\<close>

theorem inputs_not_mutated_witness:
  "array_of
     (snd (split_data_mem rev
        [\<lparr>vshape = [4, 2], base = 0, offset = 0\<rparr>, \<lparr>vshape = [4, 1], base = 1, offset = 0\<rparr>]
        (1 / 4) True (Some 2)
        \<lparr>ints = [], vals = [[10, 11, 12, 13, 14, 15, 16, 17 :: int], [1, 0, 1, 0]]\<rparr>))
     \<lparr>vshape = [4, 2], base = 0, offset = 0\<rparr> =
     \<lparr>shape = [4, 2], data = [10, 11, 12, 13, 14, 15, 16, 17]\<rparr>
   \<and> array_of
     (snd (split_data_mem rev
        [\<lparr>vshape = [4, 2], base = 0, offset = 0\<rparr>, \<lparr>vshape = [4, 1], base = 1, offset = 0\<rparr>]
        (1 / 4) True (Some 2)
        \<lparr>ints = [], vals = [[10, 11, 12, 13, 14, 15, 16, 17 :: int], [1, 0, 1, 0]]\<rparr>))
     \<lparr>vshape = [4, 1], base = 1, offset = 0\<rparr> =
     \<lparr>shape = [4, 1], data = [1, 0, 1, 0]\<rparr>"
proof -
  have "array_of \<lparr>ints = [], vals = [[10, 11, 12, 13, 14, 15, 16, 17 :: int], [1, 0, 1, 0]]\<rparr>
      \<lparr>vshape = [4, 2], base = 0, offset = 0\<rparr> =
      \<lparr>shape = [4, 2], data = [10, 11, 12, 13, 14, 15, 16, 17]\<rparr>"
    and "array_of \<lparr>ints = [], vals = [[10, 11, 12, 13, 14, 15, 16, 17 :: int], [1, 0, 1, 0]]\<rparr>
      \<lparr>vshape = [4, 1], base = 1, offset = 0\<rparr> =
      \<lparr>shape = [4, 1], data = [1, 0, 1, 0]\<rparr>"
    by (simp_all add: array_of_def view_vals_def buf_at_def)
  then show ?thesis
    using inputs_not_mutated
      [of "\<lparr>ints = [], vals = [[10, 11, 12, 13, 14, 15, 16, 17 :: int], [1, 0, 1, 0]]\<rparr>" rev
          "[\<lparr>vshape = [4, 2], base = 0, offset = 0\<rparr>, \<lparr>vshape = [4, 1], base = 1, offset = 0\<rparr>]"
          "1 / 4" True "Some 2"]
    by simp
qed

section \<open>The two models agree\<close>

lemma length_slice_to_upt: "length (slice_to [0..<n] k) \<le> n"
  by (auto simp: slice_to_def)

lemma slice_to_by_length:
  "length I = n \<Longrightarrow> slice_to I k = take (length (slice_to [0..<n] k)) I"
  by (auto simp: slice_to_def min_def)

lemma slice_from_by_length:
  "length I = n \<Longrightarrow> slice_from I k = drop (n - length (slice_from [0..<n] k)) I"
proof -
  assume n: "length I = n"
  have "drop j I = drop (n - (n - j)) I" for j
  proof (cases "j \<le> n")
    case True
    then show ?thesis by simp
  next
    case False
    with n show ?thesis by simp
  qed
  then show ?thesis
    using n by (simp add: slice_from_def)
qed

lemma view_to_ints:
  assumes "vshape v = [n]" and "length (view_ints h v) = n"
  shows "\<exists>va. view_to v k = Inr va \<and> view_ints h va = slice_to (view_ints h v) k"
proof -
  let ?m = "length (slice_to [0..<n] k)"
  have "view_to v k = Inr (v\<lparr>vshape := [?m]\<rparr>)"
    using assms(1) by (simp add: view_to_def)
  moreover have "view_ints h (v\<lparr>vshape := [?m]\<rparr>) = take ?m (view_ints h v)"
    using assms(1) length_slice_to_upt [of n k] by (simp add: view_ints_def min_def)
  ultimately show ?thesis
    using slice_to_by_length [OF assms(2), of k] by simp
qed

lemma view_from_ints:
  assumes "vshape v = [n]" and "length (view_ints h v) = n"
  shows "\<exists>vb. view_from v k = Inr vb \<and> view_ints h vb = slice_from (view_ints h v) k"
proof -
  let ?m = "length (slice_from [0..<n] k)"
  have m: "?m \<le> n" by (simp add: slice_from_def)
  have "view_from v k = Inr (v\<lparr>vshape := [?m], offset := offset v + (n - ?m)\<rparr>)"
    using assms(1) by (simp add: view_from_def Let_def)
  moreover have "view_ints h (v\<lparr>vshape := [?m], offset := offset v + (n - ?m)\<rparr>) =
      drop (n - ?m) (view_ints h v)"
    using assms(1) m by (simp add: view_ints_def drop_take add.commute)
  ultimately show ?thesis
    using slice_from_by_length [OF assms(2), of k] by simp
qed

lemma length_select_rows:
  "length (data (select_rows a idx)) \<le> length idx * prod_list (tl (shape a))"
  by (induction idx) (auto simp: select_rows_def row_def)

lemma take_rows_mem_refines:
  assumes "take_rows_mem d idx h = (r, h')"
  shows "extends h h' \<and> ints h' = ints h
       \<and> (case r of
            Inl e \<Rightarrow> take_rows (array_of h d) (view_ints h idx) = Inl e
          | Inr v \<Rightarrow> take_rows (array_of h d) (view_ints h idx) = Inr (array_of h' v)
                      \<and> base v < length (vals h'))"
proof (cases "vshape d")
  case Nil
  with assms show ?thesis
    by (auto simp: take_rows_mem_def take_rows_def array_of_def extends_refl)
next
  case (Cons n rest)
  show ?thesis
  proof (cases "list_all (\<lambda>i. i < n) (view_ints h idx)")
    case False
    with assms Cons show ?thesis
      by (auto simp: take_rows_mem_def take_rows_def array_of_def extends_refl)
  next
    case True
    let ?D = "data (select_rows (array_of h d) (view_ints h idx))"
    let ?v = "\<lparr>vshape = length (view_ints h idx) # rest, base = length (vals h), offset = 0\<rparr>"
    from assms Cons True have r: "r = Inr ?v" and h': "h' = h\<lparr>vals := vals h @ [?D]\<rparr>"
      by (auto simp: take_rows_mem_def)
    have "length ?D \<le> length (view_ints h idx) * prod_list rest"
      using length_select_rows [of "array_of h d" "view_ints h idx"] Cons
      by (simp add: array_of_def)
    then have "view_vals h' ?v = ?D"
      by (simp add: h' view_vals_def buf_at_def)
    then have "array_of h' ?v = select_rows (array_of h d) (view_ints h idx)"
      using Cons by (simp add: array_of_def select_rows_def)
    moreover have "take_rows (array_of h d) (view_ints h idx) =
        Inr (select_rows (array_of h d) (view_ints h idx))"
      using Cons True by (simp add: take_rows_def array_of_def)
    ultimately show ?thesis
      using r h' take_rows_mem_extends [of h d idx] assms by (simp add: h')
  qed
qed


lemma view_ints_same: "ints h' = ints h \<Longrightarrow> view_ints h' v = view_ints h v"
  by (simp add: view_ints_def)

lemma split_rows_mem_refines:
  assumes "vshape idx = [n]" and "length (view_ints h idx) = n"
    and "\<forall>d \<in> set ds. base d < length (vals h)"
    and "split_rows_mem idx k ds h = (r, h')"
  shows "extends h h' \<and> ints h' = ints h
       \<and> arrays_of h' r = split_rows (view_ints h idx) k (map (array_of h) ds)
       \<and> (\<forall>split_a split_b. r = Inr (split_a, split_b) \<longrightarrow>
            (\<forall>v \<in> set split_a \<union> set split_b. base v < length (vals h')))"
  using assms(2-4)
proof (induction ds arbitrary: h r h')
  case Nil
  then show ?case by (auto simp: extends_refl arrays_of_def)
next
  case (Cons d ds)
  let ?I = "view_ints h idx"
  let ?A = "array_of h d"
  obtain idx_a where ia: "view_to idx k = Inr idx_a"
    and Ia: "view_ints h idx_a = slice_to ?I k"
    using view_to_ints [OF assms(1) Cons.prems(1), of k] by blast
  obtain idx_b where ib: "view_from idx k = Inr idx_b"
    and Ib: "view_ints h idx_b = slice_from ?I k"
    using view_from_ints [OF assms(1) Cons.prems(1), of k] by blast
  obtain ra h1 where t1: "take_rows_mem d idx_a h = (ra, h1)"
    by (cases "take_rows_mem d idx_a h")
  note f1 = take_rows_mem_refines [OF t1]
  from f1 have e1: "extends h h1" and i1: "ints h1 = ints h" by simp_all
  show ?case
  proof (cases ra)
    case (Inl e)
    then have "r = Inl e" and "h' = h1"
      using Cons.prems(3) ia t1 by simp_all
    moreover have "split_rows ?I k (map (array_of h) (d # ds)) = Inl e"
      using f1 Inl Ia by simp
    ultimately show ?thesis
      using e1 i1 by (simp add: arrays_of_def)
  next
    case a: (Inr a)
    with f1 Ia have pa: "take_rows ?A (slice_to ?I k) = Inr (array_of h1 a)"
      and va: "base a < length (vals h1)" by simp_all
    obtain rb h2 where t2: "take_rows_mem d idx_b h1 = (rb, h2)"
      by (cases "take_rows_mem d idx_b h1")
    note f2 = take_rows_mem_refines [OF t2]
    from f2 have e12: "extends h1 h2" and i2: "ints h2 = ints h1" by simp_all
    have e2: "extends h h2" using e1 e12 by (rule extends_trans)
    have A1: "array_of h1 d = ?A"
      using e1 Cons.prems(2) by (simp add: array_of_extends)
    have Ib1: "view_ints h1 idx_b = slice_from ?I k"
      using Ib view_ints_same [OF i1, of idx_b] by simp
    show ?thesis
    proof (cases rb)
      case (Inl e)
      with f2 A1 Ib1 have pb: "take_rows ?A (slice_from ?I k) = Inl e" by simp
      have "r = Inl e" and "h' = h2"
        using Cons.prems(3) ia ib t1 t2 a Inl by simp_all
      moreover have "split_rows ?I k (map (array_of h) (d # ds)) = Inl e"
        using pa pb by simp
      moreover have "ints h2 = ints h"
        using i1 i2 by simp
      ultimately show ?thesis
        using e2 by (simp add: arrays_of_def)
    next
      case b: (Inr b)
      with f2 A1 Ib1 have pb: "take_rows ?A (slice_from ?I k) = Inr (array_of h2 b)"
        and vb: "base b < length (vals h2)" by simp_all
      obtain rr h3 where rec: "split_rows_mem idx k ds h2 = (rr, h3)"
        by (cases "split_rows_mem idx k ds h2")
      have I2: "view_ints h2 idx = ?I"
        using view_ints_same [of h2 h idx] i1 i2 by simp
      have valid2: "\<forall>d \<in> set ds. base d < length (vals h2)"
        using Cons.prems(2) extends_length [OF e2] by fastforce
      have len2: "length (view_ints h2 idx) = n"
        using Cons.prems(1) I2 by simp
      note ih = Cons.IH [OF len2 valid2 rec]
      from ih have e23: "extends h2 h3" and i3: "ints h3 = ints h2" by simp_all
      have same: "map (array_of h2) ds = map (array_of h) ds"
        using e2 Cons.prems(2) by (simp add: array_of_extends)
      have pr: "arrays_of h3 rr = split_rows ?I k (map (array_of h) ds)"
        using ih I2 same by simp
      have e13: "extends h1 h3" using e12 e23 by (rule extends_trans)
      have a3: "array_of h3 a = array_of h1 a"
        using e13 va by (rule array_of_extends)
      have b3: "array_of h3 b = array_of h2 b"
        using e23 vb by (rule array_of_extends)
      have va3: "base a < length (vals h3)"
        using va extends_length [OF e13] by simp
      have vb3: "base b < length (vals h3)"
        using vb extends_length [OF e23] by simp
      have h': "h' = h3"
        using Cons.prems(3) ia ib t1 t2 a b rec by (simp split: sum.splits prod.splits)
      have ext: "extends h h3" using e2 e23 by (rule extends_trans)
      have i: "ints h3 = ints h" using i1 i2 i3 by simp
      show ?thesis
      proof (cases rr)
        case (Inl e)
        then have "r = Inl e"
          using Cons.prems(3) ia ib t1 t2 a b rec by simp
        moreover have "split_rows ?I k (map (array_of h) (d # ds)) = Inl e"
          using pa pb pr [symmetric] Inl by (simp add: arrays_of_def)
        ultimately show ?thesis
          using ext i h' by (simp add: arrays_of_def)
      next
        case (Inr p)
        obtain as bs where p: "p = (as, bs)" by (cases p)
        have r: "r = Inr (a # as, b # bs)"
          using Cons.prems(3) ia ib t1 t2 a b rec Inr p by simp
        have "split_rows ?I k (map (array_of h) ds) =
            Inr (map (array_of h3) as, map (array_of h3) bs)"
          using pr [symmetric] Inr p by (simp add: arrays_of_def)
        then have "split_rows ?I k (map (array_of h) (d # ds)) =
            Inr (array_of h3 a # map (array_of h3) as, array_of h3 b # map (array_of h3) bs)"
          using pa pb a3 b3 by simp
        then have c3: "arrays_of h' r = split_rows ?I k (map (array_of h) (d # ds))"
          unfolding r h' by (simp add: arrays_of_def)
        have "\<forall>v \<in> set as \<union> set bs. base v < length (vals h3)"
          using ih Inr p by simp
        then have c4: "\<forall>split_a split_b. r = Inr (split_a, split_b) \<longrightarrow>
            (\<forall>v \<in> set split_a \<union> set split_b. base v < length (vals h'))"
          unfolding r h' using va3 vb3 by auto
        from ext i c3 c4 show ?thesis
          unfolding h' by blast
      qed
    qed
  qed
qed


lemma view_to_refines:
  "rows_to (array_of h v) k =
     (case view_to v k of Inl e \<Rightarrow> Inl e | Inr v' \<Rightarrow> Inr (array_of h v'))"
proof (cases "vshape v")
  case Nil
  then show ?thesis by (simp add: view_to_def rows_to_def array_of_def)
next
  case (Cons n rest)
  let ?m = "length (slice_to [0..<n] k)"
  have "?m * prod_list rest \<le> n * prod_list rest"
    using length_slice_to_upt [of n k] by (rule mult_le_mono1)
  then show ?thesis
    using Cons by (simp add: view_to_def rows_to_def array_of_def view_vals_def min_def Let_def)
qed

lemma trim_views_refines:
  "(case trim_views ra rb split_a split_b of
      Inl e \<Rightarrow> Inl e
    | Inr (as, bs) \<Rightarrow> Inr (map (array_of h) as, map (array_of h) bs)) =
     trim ra rb (map (array_of h) split_a) (map (array_of h) split_b)"
proof (induction ra rb split_a split_b rule: trim_views.induct)
  case (1 ra rb split_b)
  show ?case by simp
next
  case (2 ra rb a split_a)
  show ?case by simp
next
  case (3 ra rb a split_a b split_b)
  show ?case
  proof (cases "view_to a (- ra)")
    case (Inl e)
    then show ?thesis
      by (simp add: view_to_refines)
  next
    case a': (Inr a')
    show ?thesis
    proof (cases "view_to b (- rb)")
      case (Inl e)
      then show ?thesis
        using a' by (simp add: view_to_refines)
    next
      case b': (Inr b')
      show ?thesis
        using a' b' "3.IH" [OF a' b', symmetric]
        by (simp add: view_to_refines split: sum.splits prod.splits)
    qed
  qed
qed

lemma first_dim_view_refines: "first_dim_view v = first_dim (array_of h v)"
  by (simp add: first_dim_view_def first_dim_def array_of_def)

lemma trim_batch_views_refines:
  "arrays_of h (trim_batch_views batch_size split_a split_b) =
     trim_batch batch_size (map (array_of h) split_a) (map (array_of h) split_b)"
proof (cases "batch_size = None \<or> batch_size = Some 0")
  case True
  then show ?thesis
    by (auto simp: arrays_of_def trim_batch_views_def trim_batch_def)
next
  case False
  then obtain bsz where bs: "batch_size = Some bsz" "bsz \<noteq> 0" by auto
  show ?thesis
  proof (cases split_a)
    case Nil
    with bs show ?thesis
      by (simp add: arrays_of_def trim_batch_views_def trim_batch_def)
  next
    case a: (Cons a0 as')
    show ?thesis
    proof (cases split_b)
      case Nil
      with bs a show ?thesis
        by (simp add: arrays_of_def trim_batch_views_def trim_batch_def)
    next
      case b: (Cons b0 bs')
      show ?thesis
      proof (cases "first_dim_view a0")
        case (Inl e)
        with bs a b show ?thesis
          using first_dim_view_refines [of a0 h]
          by (simp add: arrays_of_def trim_batch_views_def trim_batch_def)
      next
        case na: (Inr n_samples_a)
        show ?thesis
        proof (cases "first_dim_view b0")
          case (Inl e)
          with bs a b na show ?thesis
            using first_dim_view_refines [of a0 h] first_dim_view_refines [of b0 h]
            by (simp add: arrays_of_def trim_batch_views_def trim_batch_def)
        next
          case nb: (Inr n_samples_b)
          have "arrays_of h (trim_views (int n_samples_a mod bsz) (int n_samples_b mod bsz)
                  split_a split_b) =
              trim (int n_samples_a mod bsz) (int n_samples_b mod bsz)
                (map (array_of h) split_a) (map (array_of h) split_b)"
            using trim_views_refines [where ra = "int n_samples_a mod bsz"
                and rb = "int n_samples_b mod bsz" and split_a = split_a and split_b = split_b
                and h = h]
            by (simp add: arrays_of_def)
          moreover have "trim_batch_views batch_size split_a split_b =
              trim_views (int n_samples_a mod bsz) (int n_samples_b mod bsz) split_a split_b"
            using bs a b na nb by (simp add: trim_batch_views_def)
          moreover have "trim_batch batch_size (map (array_of h) split_a)
                (map (array_of h) split_b) =
              trim (int n_samples_a mod bsz) (int n_samples_b mod bsz)
                (map (array_of h) split_a) (map (array_of h) split_b)"
            using bs a b na nb first_dim_view_refines [of a0 h] first_dim_view_refines [of b0 h]
            by (simp add: trim_batch_def)
          ultimately show ?thesis by simp
        qed
      qed
    qed
  qed
qed


lemma array_of_same_vals: "vals h' = vals h \<Longrightarrow> array_of h' v = array_of h v"
  by (simp add: array_of_def view_vals_def)

lemma index_array:
  fixes h :: "'a heap"
  assumes "length (shuffle [0..<n]) = n"
    and "h2 = (if rand
      then np_random_shuffle shuffle (fst (np_arange n h)) (snd (np_arange n h))
      else snd (np_arange n h))"
  shows "vshape (fst (np_arange n h)) = [n]"
    and "view_ints h2 (fst (np_arange n h)) = (if rand then shuffle [0..<n] else [0..<n])"
    and "vals h2 = vals h"
  using assms
  by (simp_all add: np_arange_def np_random_shuffle_def view_ints_def buf_at_def Let_def)

text \<open>
  The functions on memory compute the arrays of the functions on values: for input
  views of buffers that exist, and a shuffle that keeps the length of the index array,
  the arrays behind the views that \<open>split_data_mem\<close> returns are the arrays that
  \<open>split_data\<close> returns on the arrays behind the input views, and an exception of the
  one is the exception of the other.
\<close>

lemma split_data_mem_refines:
  assumes "\<forall>d \<in> set list_of_data. base d < length (vals h)"
    and "\<forall>n. length (shuffle [0..<n]) = n"
    and "split_data_mem shuffle list_of_data split rand batch_size h = (r, h')"
  shows "arrays_of h' r =
           split_data shuffle (map (array_of h) list_of_data) split rand batch_size"
proof (cases list_of_data)
  case Nil
  with assms(3) show ?thesis
    by (auto simp: split_data_mem_def split_data_def arrays_of_def)
next
  case (Cons d0 ds)
  show ?thesis
  proof (cases "first_dim_view d0")
    case (Inl e)
    then have "first_dim (array_of h d0) = Inl e"
      by (simp add: first_dim_view_refines [of d0 h])
    with Inl Cons assms(3) show ?thesis
      by (auto simp: split_data_mem_def split_data_def arrays_of_def)
  next
    case (Inr n)
    then have fd: "first_dim (array_of h d0) = Inr n"
      by (simp add: first_dim_view_refines [of d0 h])
    define idx where "idx = fst (np_arange n h)"
    define h2 where "h2 = (if rand
      then np_random_shuffle shuffle (fst (np_arange n h)) (snd (np_arange n h))
      else snd (np_arange n h))"
    define I where "I = (if rand then shuffle [0..<n] else [0..<n])"
    define k where "k = py_int ((1 - split) * of_nat n)"
    have len: "length (shuffle [0..<n]) = n" using assms(2) by simp
    have sh: "vshape idx = [n]" and vi: "view_ints h2 idx = I" and vv: "vals h2 = vals h"
      unfolding idx_def I_def using index_array [OF len h2_def] by simp_all
    have lenI: "length (view_ints h2 idx) = n"
      unfolding vi I_def using len by simp
    have valid2: "\<forall>d \<in> set list_of_data. base d < length (vals h2)"
      using assms(1) vv by simp
    obtain rr h3 where sr: "split_rows_mem idx k list_of_data h2 = (rr, h3)"
      by (cases "split_rows_mem idx k list_of_data h2")
    have same: "map (array_of h2) list_of_data = map (array_of h) list_of_data"
      using array_of_same_vals [OF vv] by simp
    have rows: "arrays_of h3 rr = split_rows I k (map (array_of h) list_of_data)"
      using split_rows_mem_refines [OF sh lenI valid2 sr] vi same by simp
    have mem: "split_data_mem shuffle list_of_data split rand batch_size h =
        (case rr of
           Inl e \<Rightarrow> (Inl e, h3)
         | Inr (split_a, split_b) \<Rightarrow> (trim_batch_views batch_size split_a split_b, h3))"
      using split_data_mem_unfold [OF Cons Inr sr [unfolded idx_def h2_def k_def]] .
    have pure: "split_data shuffle (map (array_of h) list_of_data) split rand batch_size =
        (case split_rows I k (map (array_of h) list_of_data) of
           Inl e \<Rightarrow> Inl e
         | Inr (split_a, split_b) \<Rightarrow> trim_batch batch_size split_a split_b)"
      using fd unfolding split_data_def I_def k_def Cons
      by (simp add: Let_def del: split_rows.simps)
    show ?thesis
    proof (cases rr)
      case (Inl e)
      with rows have "split_rows I k (map (array_of h) list_of_data) = Inl e"
        by (simp add: arrays_of_def)
      moreover from Inl mem assms(3) have "r = Inl e" by simp
      ultimately show ?thesis
        using pure by (simp add: arrays_of_def)
    next
      case (Inr p)
      obtain split_a split_b where p: "p = (split_a, split_b)" by (cases p)
      from rows Inr p have "split_rows I k (map (array_of h) list_of_data) =
          Inr (map (array_of h3) split_a, map (array_of h3) split_b)"
        by (simp add: arrays_of_def)
      moreover from Inr p mem assms(3)
      have "r = trim_batch_views batch_size split_a split_b" and "h' = h3"
        by simp_all
      ultimately show ?thesis
        using pure by (simp add: trim_batch_views_refines)
    qed
  qed
qed


text \<open>The same for the two reshaping functions.\<close>

lemma reshape_view_refines:
  "np_reshape (array_of h v) s =
     (case reshape_view v s of Inl e \<Rightarrow> Inl e | Inr r \<Rightarrow> Inr (array_of h r))"
  by (simp add: np_reshape_def reshape_view_def array_of_def view_vals_def)

lemma rnn_format_x_mem_refines:
  "rnn_format_x (map (array_of h) xs) =
     (case fst (rnn_format_x_mem xs h) of Inl e \<Rightarrow> Inl e | Inr rs \<Rightarrow> Inr (map (array_of h) rs))"
proof (induction xs)
  case Nil
  show ?case by simp
next
  case (Cons x xs)
  have "shape (array_of h x) = vshape x"
    by (simp add: array_of_def)
  with Cons show ?case
    by (auto simp: reshape_view_refines split: sum.splits prod.splits)
qed

lemma linear_format_x_mem_refines:
  "linear_format_x (map (array_of h) xs) =
     (case fst (linear_format_x_mem xs h) of
        Inl e \<Rightarrow> Inl e
      | Inr rs \<Rightarrow> Inr (map (array_of h) rs))"
proof (induction xs)
  case Nil
  show ?case by simp
next
  case (Cons x xs)
  have "shape (array_of h x) = vshape x"
    by (simp add: array_of_def)
  with Cons show ?case
    by (auto simp: reshape_view_refines split: sum.splits prod.splits)
qed

end
